theory Spec2Isabelle
  imports Main "HOL-Library.AList"
begin

section \<open>Data model: vertices, the graph registry and the vertex store\<close>

text \<open>
  A Go \<^verbatim>\<open>*Vertex\<close> is an address into a store of vertex objects; \<^verbatim>\<open>nil\<close> is \<open>None\<close>.
  The store keeps every vertex ever allocated, also those that \<^verbatim>\<open>Delete\<close> has removed
  from the registry (a caller may still hold a pointer to them, as the test suite does).
  Go maps that the code ranges over are association lists built only with
  \<open>AList.update\<close> and \<open>AList.delete\<close>; the list order stands for the iteration order,
  which Go leaves unspecified. The payload \<^verbatim>\<open>interface{}\<close> is a type parameter.
  Go's \<^verbatim>\<open>int\<close> is modelled by \<open>int\<close>; the graph operations only store and compare weights,
  and the additions of the search wrap around at 64 bits (\<open>go_add\<close> below).
  The field \<^verbatim>\<open>value\<close> is called \<open>val\<close>. Locks are not modelled: every operation is taken
  as one atomic step.
\<close>

type_synonym addr = nat
type_synonym ptr = "addr option"

record 'v Vertex =
  key :: string
  val :: 'v
  incomingEdges :: "(addr \<times> int) list"
  outgoingEdges :: "(addr \<times> int) list"

record 'v Graph =
  vertices :: "(string \<times> addr) list"
  store :: "'v Vertex list"

definition New :: "'v Graph" where
  "New = \<lparr>vertices = [], store = []\<rparr>"

definition Len :: "'v Graph \<Rightarrow> nat" where
  "Len g = length (vertices g)"

text \<open>\<^verbatim>\<open>g.get(key)\<close>: the registry lookup, \<open>None\<close> for an unknown key.\<close>

definition get :: "'v Graph \<Rightarrow> string \<Rightarrow> ptr" where
  "get g k = map_of (vertices g) k"

text \<open>The nil-safe accessors of a vertex pointer.\<close>

definition GetOutgoing :: "'v Graph \<Rightarrow> ptr \<Rightarrow> (addr \<times> int) list" where
  "GetOutgoing g p = (case p of None \<Rightarrow> [] | Some a \<Rightarrow> outgoingEdges (store g ! a))"

definition GetIncoming :: "'v Graph \<Rightarrow> ptr \<Rightarrow> (addr \<times> int) list" where
  "GetIncoming g p = (case p of None \<Rightarrow> [] | Some a \<Rightarrow> incomingEdges (store g ! a))"

definition Set :: "'v Graph \<Rightarrow> string \<Rightarrow> 'v \<Rightarrow> 'v Graph" where
  "Set g k x =
     (case get g k of
        None \<Rightarrow>
          g\<lparr>vertices := AList.update k (length (store g)) (vertices g),
            store := store g @ [\<lparr>key = k, val = x, incomingEdges = [], outgoingEdges = []\<rparr>]\<rparr>
      | Some a \<Rightarrow> g\<lparr>store := (store g)[a := (store g ! a)\<lparr>val := x\<rparr>]\<rparr>)"

text \<open>The two range statements of \<^verbatim>\<open>Delete\<close>: each neighbour forgets the vertex at address \<open>a\<close>.\<close>

fun strip_outgoing :: "addr \<Rightarrow> addr list \<Rightarrow> 'v Vertex list \<Rightarrow> 'v Vertex list" where
  "strip_outgoing a [] st = st"
| "strip_outgoing a (n # ns) st =
     strip_outgoing a ns (st[n := (st ! n)\<lparr>outgoingEdges := AList.delete a (outgoingEdges (st ! n))\<rparr>])"

fun strip_incoming :: "addr \<Rightarrow> addr list \<Rightarrow> 'v Vertex list \<Rightarrow> 'v Vertex list" where
  "strip_incoming a [] st = st"
| "strip_incoming a (n # ns) st =
     strip_incoming a ns (st[n := (st ! n)\<lparr>incomingEdges := AList.delete a (incomingEdges (st ! n))\<rparr>])"

definition Delete :: "'v Graph \<Rightarrow> string \<Rightarrow> bool \<times> 'v Graph" where
  "Delete g k =
     (case get g k of
        None \<Rightarrow> (False, g)
      | Some a \<Rightarrow>
          let st1 = strip_outgoing a (map fst (incomingEdges (store g ! a))) (store g);
              st2 = strip_incoming a (map fst (outgoingEdges (st1 ! a))) st1
          in (True, g\<lparr>vertices := AList.delete k (vertices g), store := st2\<rparr>))"

definition Connect :: "'v Graph \<Rightarrow> string \<Rightarrow> string \<Rightarrow> int \<Rightarrow> bool \<times> 'v Graph" where
  "Connect g fromKey toKey weight =
     (if fromKey = toKey then (False, g)
      else case (get g fromKey, get g toKey) of
        (Some fromV, Some toV) \<Rightarrow>
          let st1 = (store g)[fromV := (store g ! fromV)
                       \<lparr>outgoingEdges := AList.update toV weight (outgoingEdges (store g ! fromV))\<rparr>];
              st2 = st1[toV := (st1 ! toV)
                       \<lparr>incomingEdges := AList.update fromV weight (incomingEdges (st1 ! toV))\<rparr>]
          in (True, g\<lparr>store := st2\<rparr>)
      | _ \<Rightarrow> (False, g))"

definition Disconnect :: "'v Graph \<Rightarrow> string \<Rightarrow> string \<Rightarrow> bool \<times> 'v Graph" where
  "Disconnect g fromKey toKey =
     (if fromKey = toKey then (False, g)
      else case (get g fromKey, get g toKey) of
        (Some fromV, Some toV) \<Rightarrow>
          let st1 = (store g)[fromV := (store g ! fromV)
                       \<lparr>outgoingEdges := AList.delete toV (outgoingEdges (store g ! fromV))\<rparr>];
              st2 = st1[toV := (st1 ! toV)
                       \<lparr>incomingEdges := AList.delete fromV (incomingEdges (st1 ! toV))\<rparr>]
          in (True, g\<lparr>store := st2\<rparr>)
      | _ \<Rightarrow> (False, g))"

text \<open>
  The two searches of \<^verbatim>\<open>IsConnected\<close>: range over an edge map and return at the first
  entry whose vertex is the wanted one; the named results default to \<open>(False, 0)\<close>.
\<close>

fun scan :: "addr \<Rightarrow> (addr \<times> int) list \<Rightarrow> bool \<times> int" where
  "scan t [] = (False, 0)"
| "scan t ((iteratingV, weight) # rest) =
     (if iteratingV = t then (True, weight) else scan t rest)"

definition IsConnected :: "'v Graph \<Rightarrow> string \<Rightarrow> string \<Rightarrow> bool \<times> int" where
  "IsConnected g fromKey toKey =
     (if fromKey = toKey then (False, 0)
      else case get g fromKey of
        None \<Rightarrow> (False, 0)
      | Some fromV \<Rightarrow>
         (case get g toKey of
            None \<Rightarrow> (False, 0)
          | Some toV \<Rightarrow>
              if length (outgoingEdges (store g ! fromV)) < length (incomingEdges (store g ! toV))
              then scan toV (outgoingEdges (store g ! fromV))
              else scan fromV (incomingEdges (store g ! toV))))"

text \<open>The states a graph can be in: those its public operations produce from \<^verbatim>\<open>New()\<close>.\<close>

inductive reachable :: "'v Graph \<Rightarrow> bool" where
  r_New: "reachable New"
| r_Set: "reachable g \<Longrightarrow> reachable (Set g k x)"
| r_Delete: "reachable g \<Longrightarrow> reachable (snd (Delete g k))"
| r_Connect: "reachable g \<Longrightarrow> reachable (snd (Connect g a b w))"
| r_Disconnect: "reachable g \<Longrightarrow> reachable (snd (Disconnect g a b))"

text \<open>
  The invariant of the reachable states. The registry is a proper map whose entries point
  into the store at a vertex carrying the same key; the edge maps of registered vertices
  mention registered vertices only, never the vertex itself, every edge is recorded on
  both of its ends with the same weight, and no edge map lists a vertex twice.
\<close>

definition live :: "'v Graph \<Rightarrow> addr set" where
  "live g = snd ` set (vertices g)"

definition consistent :: "'v Graph \<Rightarrow> bool" where
  "consistent g \<longleftrightarrow>
     distinct (map fst (vertices g))
   \<and> (\<forall>(k, a) \<in> set (vertices g). a < length (store g) \<and> key (store g ! a) = k)
   \<and> (\<forall>a \<in> live g. \<forall>b w. map_of (outgoingEdges (store g ! a)) b = Some w \<longrightarrow>
         b \<in> live g \<and> b \<noteq> a \<and> map_of (incomingEdges (store g ! b)) a = Some w)
   \<and> (\<forall>a \<in> live g. \<forall>b w. map_of (incomingEdges (store g ! a)) b = Some w \<longrightarrow>
         b \<in> live g \<and> b \<noteq> a \<and> map_of (outgoingEdges (store g ! b)) a = Some w)
   \<and> (\<forall>a \<in> live g. distinct (map fst (outgoingEdges (store g ! a)))
         \<and> distinct (map fst (incomingEdges (store g ! a))))"

text \<open>The graph of the test suite: four vertices, edges 1\<rightarrow>2 (5), 2\<rightarrow>3 (1), 3\<rightarrow>1 (9), 4\<rightarrow>2 (3).\<close>

definition example :: "(int + string) Graph" where
  "example =
     snd (Connect (snd (Connect (snd (Connect (snd (Connect
       (Set (Set (Set (Set New ''1'' (Inl 123)) ''2'' (Inl 678)) ''3'' (Inr ''abc'')) ''4'' (Inr ''xyz''))
       ''1'' ''2'' 5)) ''2'' ''3'' 1)) ''3'' ''1'' 9)) ''4'' ''2'' 3)"

section \<open>The A* search\<close>

text \<open>
  Modelled from the spec: the declaration of \<^verbatim>\<open>Item\<close> is not among the sources. A search item
  wraps the vertex, its predecessor on the candidate path, the accumulated cost from the
  start, the priority (cost plus heuristic estimate) and its current heap position, in the
  order of the literals \<^verbatim>\<open>&Item{start, nil, 0, 0, 0}\<close> of the search. The fields \<^verbatim>\<open>v\<close> and
  \<^verbatim>\<open>prev\<close> are called \<open>item_v\<close> and \<open>item_prev\<close>; the heap position \<^verbatim>\<open>index\<close> is kept by
  the queue below, which owns it.
\<close>

record Item =
  item_v :: ptr
  item_prev :: ptr
  distanceFromStart :: int
  priority :: int

text \<open>
  Modelled from the spec: the indexed priority queue (\<^verbatim>\<open>priorityQueue\<close>, driven through
  \<^verbatim>\<open>heap.Push\<close>, \<^verbatim>\<open>heap.Pop\<close> and \<^verbatim>\<open>heap.Remove\<close>) is not among the sources. The spec
  describes a min-heap ordered by priority that supports push, pop-min and the removal of
  a tracked item by its position, every item storing its current position; ties are broken
  arbitrarily. The model keeps the queued items in a list.
\<close>

type_synonym priorityQueue = "Item list"

text \<open>Modelled from the spec: \<^verbatim>\<open>heap.Push\<close> adds the item to the queue.\<close>

definition heap_Push :: "priorityQueue \<Rightarrow> Item \<Rightarrow> priorityQueue" where
  "heap_Push q it = q @ [it]"

text \<open>
  Modelled from the spec: \<^verbatim>\<open>heap.Pop\<close> takes an item of least priority out of the queue; among
  equal priorities the model takes the one queued first. On an empty queue there is nothing
  to return.
\<close>

fun pop_min :: "Item \<Rightarrow> Item list \<Rightarrow> Item \<times> Item list" where
  "pop_min x [] = (x, [])"
| "pop_min x (y # ys) =
     (let (m, rest) = pop_min y ys
      in if priority m < priority x then (m, x # rest) else (x, y # ys))"

definition heap_Pop :: "priorityQueue \<Rightarrow> (Item \<times> priorityQueue) option" where
  "heap_Pop q = (case q of [] \<Rightarrow> None | x # xs \<Rightarrow> Some (pop_min x xs))"

text \<open>
  Modelled from the spec: \<^verbatim>\<open>md.index\<close>, the current position of a tracked item, read off the
  queue (the length of the queue for an item that is not in it).
\<close>

fun item_index :: "priorityQueue \<Rightarrow> Item \<Rightarrow> nat" where
  "item_index [] md = 0"
| "item_index (x # xs) md = (if x = md then 0 else Suc (item_index xs md))"

text \<open>
  Modelled from the spec: \<^verbatim>\<open>heap.Remove\<close> takes the item at a position out of the queue; a
  position outside the queue is the index-out-of-range panic, \<open>None\<close>.
\<close>

definition heap_Remove :: "priorityQueue \<Rightarrow> nat \<Rightarrow> priorityQueue option" where
  "heap_Remove q i = (if i < length q then Some (take i q @ drop (Suc i) q) else None)"

text \<open>The two panics the search could run into.\<close>

datatype error = NilDereference | IndexOutOfRange

text \<open>
  The path loop: walk the predecessor links through the closed list, from the end vertex
  back to \<^verbatim>\<open>nil\<close>. A vertex without a (non-nil) closed item is a nil dereference. The loop
  has no bound of its own, so not returning is the value \<open>None\<close>.
\<close>

partial_function (option) build_path ::
  "'v Graph \<Rightarrow> (ptr \<rightharpoonup> Item option) \<Rightarrow> ptr \<Rightarrow> string list \<Rightarrow> (error + string list) option"
where
  "build_path g closedList current path =
     (case current of
        None \<Rightarrow> Some (Inr path)
      | Some a \<Rightarrow>
          (case closedList (Some a) of
             Some (Some ci) \<Rightarrow> build_path g closedList (item_prev ci) (path @ [key (store g ! a)])
           | _ \<Rightarrow> Some (Inl NilDereference)))"

text \<open>
  Go's \<^verbatim>\<open>+\<close> on \<^verbatim>\<open>int\<close> (64 bits, two's complement): the sum wraps around into the range from
  \<open>- 2 ^ 63\<close> to \<open>2 ^ 63 - 1\<close>.
\<close>

definition go_add :: "int \<Rightarrow> int \<Rightarrow> int" where
  "go_add a b = (a + b + 2 ^ 63) mod 2 ^ 64 - 2 ^ 63"

text \<open>The loop over the outgoing edges of the current vertex.\<close>

fun visit_neighbors ::
  "'v Graph \<Rightarrow> (string \<Rightarrow> string \<Rightarrow> int) \<Rightarrow> string \<Rightarrow> ptr \<Rightarrow> int \<Rightarrow> (ptr \<rightharpoonup> Item option)
     \<Rightarrow> (addr \<times> int) list \<Rightarrow> priorityQueue \<Rightarrow> (ptr \<rightharpoonup> Item)
     \<Rightarrow> error + priorityQueue \<times> (ptr \<rightharpoonup> Item)"
where
  "visit_neighbors g heuristic endKey current distance closedList [] openQueue openList =
     Inr (openQueue, openList)"
| "visit_neighbors g heuristic endKey current distance closedList ((neighbor, weight) # rest)
       openQueue openList =
     (if closedList (Some neighbor) \<noteq> None
      then visit_neighbors g heuristic endKey current distance closedList rest openQueue openList
      else
        let distanceToNeighbor = go_add distance weight;
            item = \<lparr>item_v = Some neighbor, item_prev = current,
                    distanceFromStart = distanceToNeighbor,
                    priority = go_add distanceToNeighbor (heuristic (key (store g ! neighbor)) endKey)\<rparr>
        in case openList (Some neighbor) of
             None \<Rightarrow>
               visit_neighbors g heuristic endKey current distance closedList rest
                 (heap_Push openQueue item) (openList(Some neighbor \<mapsto> item))
           | Some md \<Rightarrow>
               if distanceFromStart md < distanceToNeighbor
               then visit_neighbors g heuristic endKey current distance closedList rest
                      openQueue openList
               else (case heap_Remove openQueue (item_index openQueue md) of
                       None \<Rightarrow> Inl IndexOutOfRange
                     | Some openQueue' \<Rightarrow>
                         visit_neighbors g heuristic endKey current distance closedList rest
                           (heap_Push openQueue' item) (openList(Some neighbor \<mapsto> item))))"

text \<open>
  The main loop. \<open>None\<close> stands for a loop that never returns, \<open>Some (Inl e)\<close> for a
  panic, \<open>Some (Inr (path, exists))\<close> for the two results.
\<close>

partial_function (option) search ::
  "'v Graph \<Rightarrow> (string \<Rightarrow> string \<Rightarrow> int) \<Rightarrow> string \<Rightarrow> ptr \<Rightarrow> priorityQueue \<Rightarrow> (ptr \<rightharpoonup> Item)
     \<Rightarrow> (ptr \<rightharpoonup> Item option) \<Rightarrow> (error + string list \<times> bool) option"
where
  "search g heuristic endKey endV openQueue openList closedList =
     (if length openQueue > 0 then
        (case heap_Pop openQueue of
           None \<Rightarrow> Some (Inl IndexOutOfRange)
         | Some (popped, openQueue1) \<Rightarrow>
             let current = item_v popped;
                 closedList1 = closedList(current \<mapsto> openList current);
                 openList1 = openList(current := None)
             in if current = endV then
                  (case build_path g closedList1 current [] of
                     None \<Rightarrow> None
                   | Some (Inl e) \<Rightarrow> Some (Inl e)
                   | Some (Inr path) \<Rightarrow> Some (Inr (path, True)))
                else
                  (case closedList1 current of
                     Some (Some ci) \<Rightarrow>
                       (case visit_neighbors g heuristic endKey current (distanceFromStart ci)
                               closedList1 (GetOutgoing g current) openQueue1 openList1 of
                          Inl e \<Rightarrow> Some (Inl e)
                        | Inr (openQueue2, openList2) \<Rightarrow>
                            search g heuristic endKey endV openQueue2 openList2 closedList1)
                   | _ \<Rightarrow> Some (Inl NilDereference)))
      else Some (Inr ([], False)))"

definition ShortestPathWithHeuristic ::
  "'v Graph \<Rightarrow> string \<Rightarrow> string \<Rightarrow> (string \<Rightarrow> string \<Rightarrow> int) \<Rightarrow> (error + string list \<times> bool) option"
where
  "ShortestPathWithHeuristic g startKey endKey heuristic =
     (let start = get g startKey;
          endV = get g endKey;
          item = \<lparr>item_v = start, item_prev = None, distanceFromStart = 0, priority = 0\<rparr>;
          openList = [start \<mapsto> item];
          openQueue = heap_Push [] item
      in search g heuristic endKey endV openQueue openList Map.empty)"

text \<open>
  The predecessor links from \<open>c\<close> lead to \<^verbatim>\<open>nil\<close> through closed items: what the path loop needs
  in order to return.
\<close>

inductive chain_ok :: "(ptr \<rightharpoonup> Item option) \<Rightarrow> ptr \<Rightarrow> bool" for closedList where
  chain_nil: "chain_ok closedList None"
| chain_step: "closedList (Some a) = Some (Some ci) \<Longrightarrow> chain_ok closedList (item_prev ci)
      \<Longrightarrow> chain_ok closedList (Some a)"

text \<open>The vertex pointers a search can meet: \<^verbatim>\<open>nil\<close> and the registered vertices.\<close>

definition nodes :: "'v Graph \<Rightarrow> ptr set" where
  "nodes g = insert None (Some ` live g)"

text \<open>
  The invariant of the main loop: the queue holds exactly the items of the open list, one
  per vertex; no closed vertex is open; every closed entry is a real item; predecessor
  links lead back to \<^verbatim>\<open>nil\<close> through the closed list.
\<close>

definition search_inv ::
  "'v Graph \<Rightarrow> priorityQueue \<Rightarrow> (ptr \<rightharpoonup> Item) \<Rightarrow> (ptr \<rightharpoonup> Item option) \<Rightarrow> bool"
where
  "search_inv g openQueue openList closedList \<longleftrightarrow>
     distinct (map item_v openQueue)
   \<and> (\<forall>it \<in> set openQueue. openList (item_v it) = Some it
          \<and> chain_ok closedList (item_prev it) \<and> item_v it \<in> nodes g)
   \<and> (\<forall>x it. openList x = Some it \<longrightarrow> it \<in> set openQueue \<and> item_v it = x)
   \<and> (\<forall>x e. closedList x = Some e \<longrightarrow> openList x = None \<and> x \<in> nodes g
          \<and> (\<exists>ci. e = Some ci \<and> chain_ok closedList (item_prev ci)))"

text \<open>
  The total weight of a path given by its keys in the order the search returns them (end
  vertex first), read off the graph with \<^verbatim>\<open>IsConnected\<close>; \<open>None\<close> when two consecutive keys
  are not joined by an edge.
\<close>

fun path_weight :: "'v Graph \<Rightarrow> string list \<Rightarrow> int option" where
  "path_weight g [] = Some 0"
| "path_weight g [k] = Some 0"
| "path_weight g (b # a # ks) =
     (case IsConnected g a b of
        (True, w) \<Rightarrow> map_option (\<lambda>s. s + w) (path_weight g (a # ks))
      | (False, _) \<Rightarrow> None)"

section \<open>Serialisation\<close>

text \<open>
  The record handed to \<^verbatim>\<open>encoding/gob\<close>. The field \<^verbatim>\<open>inv\<close> is called \<open>inv_gob\<close>. The byte
  format belongs to Go's standard library and is a parameter of the model: \<open>enc\<close> stands for
  \<^verbatim>\<open>Encoder.Encode\<close> on a \<^verbatim>\<open>graphGob\<close> (the bytes and the error), \<open>dec\<close> for \<^verbatim>\<open>Decoder.Decode\<close>
  into an empty \<^verbatim>\<open>graphGob\<close> (an error or the decoded record). A Go \<^verbatim>\<open>error\<close> is its message,
  \<open>None\<close> for \<^verbatim>\<open>nil\<close>.
\<close>

record 'v graphGob =
  inv_gob :: "(addr \<times> string) list"
  Vertices :: "(string \<times> 'v) list"
  Edges :: "(string \<times> (string \<times> int) list) list"

fun build_inv :: "(string \<times> addr) list \<Rightarrow> (addr \<times> string) list \<Rightarrow> (addr \<times> string) list" where
  "build_inv [] m = m"
| "build_inv ((k, v) # rest) m =
     build_inv rest (if map_of m v = None then AList.update v k m else m)"

text \<open>The loop of \<^verbatim>\<open>add\<close> over the outgoing edges, filling the fresh inner map.\<close>

fun add_edges :: "'v Vertex list \<Rightarrow> (addr \<times> int) list \<Rightarrow> (string \<times> int) list \<Rightarrow> (string \<times> int) list" where
  "add_edges st [] m = m"
| "add_edges st ((neighbor, weight) # rest) m =
     add_edges st rest (AList.update (key (st ! neighbor)) weight m)"

definition add :: "'v graphGob \<Rightarrow> 'v Vertex list \<Rightarrow> addr \<Rightarrow> 'v graphGob" where
  "add gGob st v =
     gGob\<lparr>Vertices := AList.update (key (st ! v)) (val (st ! v)) (Vertices gGob),
          Edges := AList.update (key (st ! v)) (add_edges st (outgoingEdges (st ! v)) []) (Edges gGob)\<rparr>"

fun add_all :: "'v Vertex list \<Rightarrow> addr list \<Rightarrow> 'v graphGob \<Rightarrow> 'v graphGob" where
  "add_all st [] gGob = gGob"
| "add_all st (v # vs) gGob = add_all st vs (add gGob st v)"

text \<open>The record that \<^verbatim>\<open>GobEncode\<close> builds and then hands to the encoder.\<close>

definition graphGob_of :: "'v Graph \<Rightarrow> 'v graphGob" where
  "graphGob_of g =
     (let gGob = \<lparr>inv_gob = build_inv (vertices g) [], Vertices = [], Edges = []\<rparr>
      in add_all (store g) (map snd (vertices g)) gGob)"

definition GobEncode :: "('v graphGob \<Rightarrow> 'b \<times> string option) \<Rightarrow> 'v Graph \<Rightarrow> 'b \<times> string option" where
  "GobEncode enc g = enc (graphGob_of g)"

text \<open>The range statements of \<^verbatim>\<open>GobDecode\<close>; the two over the edges stop at the first failing \<^verbatim>\<open>Connect\<close>.\<close>

fun set_all :: "'v Graph \<Rightarrow> (string \<times> 'v) list \<Rightarrow> 'v Graph" where
  "set_all g [] = g"
| "set_all g ((k, x) # rest) = set_all (Set g k x) rest"

fun connect_neighbors :: "'v Graph \<Rightarrow> string \<Rightarrow> (string \<times> int) list \<Rightarrow> bool \<times> 'v Graph" where
  "connect_neighbors g k [] = (True, g)"
| "connect_neighbors g k ((otherKey, weight) # rest) =
     (case Connect g k otherKey weight of
        (False, g') \<Rightarrow> (False, g')
      | (True, g') \<Rightarrow> connect_neighbors g' k rest)"

fun connect_all :: "'v Graph \<Rightarrow> (string \<times> (string \<times> int) list) list \<Rightarrow> string option \<times> 'v Graph" where
  "connect_all g [] = (None, g)"
| "connect_all g ((k, neighbors) # rest) =
     (case connect_neighbors g k neighbors of
        (False, g') \<Rightarrow> (Some ''invalid edge endpoints'', g')
      | (True, g') \<Rightarrow> connect_all g' rest)"

definition GobDecode :: "('b \<Rightarrow> string + 'v graphGob) \<Rightarrow> 'v Graph \<Rightarrow> 'b \<Rightarrow> string option \<times> 'v Graph" where
  "GobDecode dec g b =
     (case dec b of
        Inl err \<Rightarrow> (Some err, g)
      | Inr gGob \<Rightarrow> connect_all (set_all g (Vertices gGob)) (Edges gGob))"

text \<open>\<^verbatim>\<open>Value()\<close> of the vertex registered under a key; \<open>None\<close> when there is none.\<close>

definition value_at :: "'v Graph \<Rightarrow> string \<Rightarrow> 'v option" where
  "value_at g k = map_option (\<lambda>a. val (store g ! a)) (get g k)"

text \<open>
  What a correct codec guarantees: the decoded record holds the key/value pairs and the
  edges that were encoded. The unexported field is not transmitted, and the order in which
  the decoded maps are ranged over is free; being Go maps, they list no key twice.
\<close>

definition gob_edge :: "'v graphGob \<Rightarrow> string \<Rightarrow> string \<Rightarrow> int option" where
  "gob_edge r a c = (case map_of (Edges r) a of None \<Rightarrow> None | Some nb \<Rightarrow> map_of nb c)"

definition same_gob :: "'v graphGob \<Rightarrow> 'v graphGob \<Rightarrow> bool" where
  "same_gob r r' \<longleftrightarrow>
     map_of (Vertices r') = map_of (Vertices r)
   \<and> (\<forall>a c. gob_edge r' a c = gob_edge r a c)
   \<and> distinct (map fst (Vertices r')) \<and> distinct (map fst (Edges r'))
   \<and> (\<forall>nb \<in> snd ` set (Edges r'). distinct (map fst nb))"

text \<open>The weight of the edge between two keys, as the outgoing map of the first holds it.\<close>

definition edge_of :: "'v Graph \<Rightarrow> string \<Rightarrow> string \<Rightarrow> int option" where
  "edge_of g a c =
     (case get g a of None \<Rightarrow> None
      | Some p \<Rightarrow> (case get g c of None \<Rightarrow> None | Some q \<Rightarrow> map_of (outgoingEdges (store g ! p)) q))"

section \<open>The registry invariant\<close>

text \<open>Lookups in the registry.\<close>

lemma update_fresh: "map_of al k = None \<Longrightarrow> AList.update k v al = al @ [(k, v)]"
  by (induction al) (auto split: if_splits)

lemma get_Some_mem: "get g k = Some a \<Longrightarrow> (k, a) \<in> set (vertices g)"
  by (simp add: get_def map_of_SomeD)

lemma get_Some_live: "get g k = Some a \<Longrightarrow> a \<in> live g"
  by (force simp: live_def dest: get_Some_mem)

lemma consistent_get: "consistent g \<Longrightarrow> get g k = Some a \<Longrightarrow> a < length (store g) \<and> key (store g ! a) = k"
  by (auto simp: consistent_def dest!: get_Some_mem)

lemma consistent_live: "consistent g \<Longrightarrow> a \<in> live g \<Longrightarrow> a < length (store g) \<and> get g (key (store g ! a)) = Some a"
  by (auto simp: consistent_def live_def get_def)

lemma consistent_inj: "consistent g \<Longrightarrow> get g k = Some a \<Longrightarrow> get g k' = Some a \<Longrightarrow> k = k'"
  using consistent_get by blast

lemma consistent_New: "consistent New"
  by (simp add: consistent_def New_def live_def)

text \<open>Updating one field of one vertex in the store, and what the two range statements of \<^verbatim>\<open>Delete\<close> leave behind.\<close>

lemma strip_outgoing_length [simp]: "length (strip_outgoing a ns st) = length st"
  by (induction ns arbitrary: st) auto

lemma strip_incoming_length [simp]: "length (strip_incoming a ns st) = length st"
  by (induction ns arbitrary: st) auto

lemma upd_out_nth:
  "outgoingEdges (st[n := (st ! n)\<lparr>outgoingEdges := x\<rparr>] ! b)
     = (if b = n \<and> n < length st then x else outgoingEdges (st ! b))"
  by (cases "b = n"; cases "n < length st") (simp_all add: list_update_beyond)

lemma upd_in_nth:
  "incomingEdges (st[n := (st ! n)\<lparr>incomingEdges := x\<rparr>] ! b)
     = (if b = n \<and> n < length st then x else incomingEdges (st ! b))"
  by (cases "b = n"; cases "n < length st") (simp_all add: list_update_beyond)

lemma upd_out_nth_other:
  "incomingEdges (st[n := (st ! n)\<lparr>outgoingEdges := x\<rparr>] ! b) = incomingEdges (st ! b)"
  "key (st[n := (st ! n)\<lparr>outgoingEdges := x\<rparr>] ! b) = key (st ! b)"
  "val (st[n := (st ! n)\<lparr>outgoingEdges := x\<rparr>] ! b) = val (st ! b)"
  by (cases "b = n"; cases "n < length st"; simp add: list_update_beyond)+

lemma upd_in_nth_other:
  "outgoingEdges (st[n := (st ! n)\<lparr>incomingEdges := x\<rparr>] ! b) = outgoingEdges (st ! b)"
  "key (st[n := (st ! n)\<lparr>incomingEdges := x\<rparr>] ! b) = key (st ! b)"
  "val (st[n := (st ! n)\<lparr>incomingEdges := x\<rparr>] ! b) = val (st ! b)"
  by (cases "b = n"; cases "n < length st"; simp add: list_update_beyond)+

lemma upd_val_nth_other:
  "outgoingEdges (st[n := (st ! n)\<lparr>val := x\<rparr>] ! b) = outgoingEdges (st ! b)"
  "incomingEdges (st[n := (st ! n)\<lparr>val := x\<rparr>] ! b) = incomingEdges (st ! b)"
  "key (st[n := (st ! n)\<lparr>val := x\<rparr>] ! b) = key (st ! b)"
  by (cases "b = n"; cases "n < length st"; simp add: list_update_beyond)+

lemma strip_outgoing_out:
  "outgoingEdges (strip_outgoing a ns st ! b)
     = (if b \<in> set ns \<and> b < length st then AList.delete a (outgoingEdges (st ! b))
        else outgoingEdges (st ! b))"
proof (induction ns arbitrary: st)
  case Nil
  show ?case by simp
next
  case (Cons n ns)
  show ?case
    by (simp add: Cons.IH upd_out_nth delete_idem) blast
qed

lemma strip_outgoing_in: "incomingEdges (strip_outgoing a ns st ! b) = incomingEdges (st ! b)"
  by (induction ns arbitrary: st) (simp_all add: upd_out_nth_other)

lemma strip_outgoing_key: "key (strip_outgoing a ns st ! b) = key (st ! b)"
  by (induction ns arbitrary: st) (simp_all add: upd_out_nth_other)

lemma strip_outgoing_val: "val (strip_outgoing a ns st ! b) = val (st ! b)"
  by (induction ns arbitrary: st) (simp_all add: upd_out_nth_other)

lemma strip_incoming_in:
  "incomingEdges (strip_incoming a ns st ! b)
     = (if b \<in> set ns \<and> b < length st then AList.delete a (incomingEdges (st ! b))
        else incomingEdges (st ! b))"
proof (induction ns arbitrary: st)
  case Nil
  show ?case by simp
next
  case (Cons n ns)
  show ?case
    by (simp add: Cons.IH upd_in_nth delete_idem) blast
qed

lemma strip_incoming_out: "outgoingEdges (strip_incoming a ns st ! b) = outgoingEdges (st ! b)"
  by (induction ns arbitrary: st) (simp_all add: upd_in_nth_other)

lemma strip_incoming_key: "key (strip_incoming a ns st ! b) = key (st ! b)"
  by (induction ns arbitrary: st) (simp_all add: upd_in_nth_other)

lemma strip_incoming_val: "val (strip_incoming a ns st ! b) = val (st ! b)"
  by (induction ns arbitrary: st) (simp_all add: upd_in_nth_other)

text \<open>The parts of the invariant, one at a time.\<close>

lemma consistent_out:
  "consistent g \<Longrightarrow> a \<in> live g \<Longrightarrow> map_of (outgoingEdges (store g ! a)) b = Some w \<Longrightarrow>
     b \<in> live g \<and> b \<noteq> a \<and> map_of (incomingEdges (store g ! b)) a = Some w"
  unfolding consistent_def by blast

lemma consistent_in:
  "consistent g \<Longrightarrow> a \<in> live g \<Longrightarrow> map_of (incomingEdges (store g ! a)) b = Some w \<Longrightarrow>
     b \<in> live g \<and> b \<noteq> a \<and> map_of (outgoingEdges (store g ! b)) a = Some w"
  unfolding consistent_def by blast

lemma consistent_edges_distinct:
  "consistent g \<Longrightarrow> a \<in> live g \<Longrightarrow> distinct (map fst (outgoingEdges (store g ! a)))
     \<and> distinct (map fst (incomingEdges (store g ! a)))"
  unfolding consistent_def by blast

lemma consistent_distinct: "consistent g \<Longrightarrow> distinct (map fst (vertices g))"
  unfolding consistent_def by blast

lemma consistentI:
  assumes "distinct (map fst (vertices g))"
    and "\<And>k a. (k, a) \<in> set (vertices g) \<Longrightarrow> a < length (store g) \<and> key (store g ! a) = k"
    and "\<And>a b w. a \<in> live g \<Longrightarrow> map_of (outgoingEdges (store g ! a)) b = Some w \<Longrightarrow>
           b \<in> live g \<and> b \<noteq> a \<and> map_of (incomingEdges (store g ! b)) a = Some w"
    and "\<And>a b w. a \<in> live g \<Longrightarrow> map_of (incomingEdges (store g ! a)) b = Some w \<Longrightarrow>
           b \<in> live g \<and> b \<noteq> a \<and> map_of (outgoingEdges (store g ! b)) a = Some w"
    and "\<And>a. a \<in> live g \<Longrightarrow> distinct (map fst (outgoingEdges (store g ! a)))
           \<and> distinct (map fst (incomingEdges (store g ! a)))"
  shows "consistent g"
  unfolding consistent_def using assms by blast

lemma consistent_mem: "consistent g \<Longrightarrow> (k, a) \<in> set (vertices g) \<Longrightarrow> a < length (store g) \<and> key (store g ! a) = k"
  unfolding consistent_def by blast

lemma live_lt: "consistent g \<Longrightarrow> a \<in> live g \<Longrightarrow> a < length (store g)"
  by (auto simp: live_def dest: consistent_mem)

text \<open>\<^verbatim>\<open>Set\<close> keeps the invariant: a new vertex gets a fresh address and empty edge maps, an old one only a new value.\<close>

lemma Set_new:
  "get g k = None \<Longrightarrow> vertices (Set g k x) = vertices g @ [(k, length (store g))]"
  "get g k = None \<Longrightarrow>
     store (Set g k x) = store g @ [\<lparr>key = k, val = x, incomingEdges = [], outgoingEdges = []\<rparr>]"
  by (simp_all add: Set_def get_def update_fresh)

lemma Set_old:
  "get g k = Some a \<Longrightarrow> vertices (Set g k x) = vertices g"
  "get g k = Some a \<Longrightarrow> store (Set g k x) = (store g)[a := (store g ! a)\<lparr>val := x\<rparr>]"
  by (simp_all add: Set_def)

lemma consistent_Set: assumes "consistent g" shows "consistent (Set g k x)"
proof (cases "get g k")
  case None
  let ?n = "length (store g)"
  have v: "vertices (Set g k x) = vertices g @ [(k, ?n)]"
    and s: "store (Set g k x) = store g @ [\<lparr>key = k, val = x, incomingEdges = [], outgoingEdges = []\<rparr>]"
    using None by (rule Set_new)+
  have lv: "live (Set g k x) = insert ?n (live g)"
    by (auto simp: live_def v)
  have old: "\<And>a. a \<in> live g \<Longrightarrow> store (Set g k x) ! a = store g ! a"
    using live_lt [OF assms] by (simp add: s nth_append)
  have new: "store (Set g k x) ! ?n = \<lparr>key = k, val = x, incomingEdges = [], outgoingEdges = []\<rparr>"
    by (simp add: s)
  have nl: "?n \<notin> live g" using live_lt [OF assms] by blast
  show ?thesis
  proof (rule consistentI)
    have "k \<notin> fst ` set (vertices g)"
      using None by (simp add: get_def map_of_eq_None_iff)
    then show "distinct (map fst (vertices (Set g k x)))"
      using consistent_distinct [OF assms] by (simp add: v)
  next
    fix k' a assume "(k', a) \<in> set (vertices (Set g k x))"
    then consider "(k', a) \<in> set (vertices g)" | "k' = k" "a = ?n" by (auto simp: v)
    then show "a < length (store (Set g k x)) \<and> key (store (Set g k x) ! a) = k'"
    proof cases
      case 1
      then show ?thesis using consistent_mem [OF assms 1] by (simp add: s nth_append)
    next
      case 2
      then show ?thesis by (simp add: s)
    qed
  next
    fix a b w
    assume a: "a \<in> live (Set g k x)"
      and e: "map_of (outgoingEdges (store (Set g k x) ! a)) b = Some w"
    have al: "a \<in> live g" using a e nl by (auto simp: lv new)
    then have "map_of (outgoingEdges (store g ! a)) b = Some w" using e old by simp
    from consistent_out [OF assms al this] show "b \<in> live (Set g k x) \<and> b \<noteq> a
        \<and> map_of (incomingEdges (store (Set g k x) ! b)) a = Some w"
      by (simp add: lv old)
  next
    fix a b w
    assume a: "a \<in> live (Set g k x)"
      and e: "map_of (incomingEdges (store (Set g k x) ! a)) b = Some w"
    have al: "a \<in> live g" using a e nl by (auto simp: lv new)
    then have "map_of (incomingEdges (store g ! a)) b = Some w" using e old by simp
    from consistent_in [OF assms al this] show "b \<in> live (Set g k x) \<and> b \<noteq> a
        \<and> map_of (outgoingEdges (store (Set g k x) ! b)) a = Some w"
      by (simp add: lv old)
  next
    fix a assume "a \<in> live (Set g k x)"
    then consider "a \<in> live g" | "a = ?n" by (auto simp: lv)
    then show "distinct (map fst (outgoingEdges (store (Set g k x) ! a)))
        \<and> distinct (map fst (incomingEdges (store (Set g k x) ! a)))"
    proof cases
      case 1
      then show ?thesis using consistent_edges_distinct [OF assms 1] by (simp add: old)
    next
      case 2
      then show ?thesis by (simp add: new)
    qed
  qed
next
  case (Some a)
  have v: "vertices (Set g k x) = vertices g"
    and s: "store (Set g k x) = (store g)[a := (store g ! a)\<lparr>val := x\<rparr>]"
    using Some by (rule Set_old)+
  have lv: "live (Set g k x) = live g" by (simp add: live_def v)
  show ?thesis
  proof (rule consistentI)
    show "distinct (map fst (vertices (Set g k x)))"
      using consistent_distinct [OF assms] by (simp add: v)
  next
    fix k' a' assume "(k', a') \<in> set (vertices (Set g k x))"
    then show "a' < length (store (Set g k x)) \<and> key (store (Set g k x) ! a') = k'"
      using consistent_mem [OF assms, of k' a'] by (simp add: v s upd_val_nth_other)
  next
    fix a' b w
    assume "a' \<in> live (Set g k x)"
      and "map_of (outgoingEdges (store (Set g k x) ! a')) b = Some w"
    then show "b \<in> live (Set g k x) \<and> b \<noteq> a'
        \<and> map_of (incomingEdges (store (Set g k x) ! b)) a' = Some w"
      using consistent_out [OF assms, of a' b w] by (simp add: lv s upd_val_nth_other)
  next
    fix a' b w
    assume "a' \<in> live (Set g k x)"
      and "map_of (incomingEdges (store (Set g k x) ! a')) b = Some w"
    then show "b \<in> live (Set g k x) \<and> b \<noteq> a'
        \<and> map_of (outgoingEdges (store (Set g k x) ! b)) a' = Some w"
      using consistent_in [OF assms, of a' b w] by (simp add: lv s upd_val_nth_other)
  next
    fix a' assume "a' \<in> live (Set g k x)"
    then show "distinct (map fst (outgoingEdges (store (Set g k x) ! a')))
        \<and> distinct (map fst (incomingEdges (store (Set g k x) ! a')))"
      using consistent_edges_distinct [OF assms, of a'] by (simp add: lv s upd_val_nth_other)
  qed
qed

text \<open>What a successful \<^verbatim>\<open>Connect\<close> or \<^verbatim>\<open>Disconnect\<close> does to the store; both keep the invariant.\<close>

lemma Connect_ok:
  assumes "f \<noteq> t" "get g f = Some p" "get g t = Some q"
  shows "fst (Connect g f t w)"
    and "vertices (snd (Connect g f t w)) = vertices g"
    and "length (store (snd (Connect g f t w))) = length (store g)"
    and "outgoingEdges (store (snd (Connect g f t w)) ! b)
          = (if b = p \<and> p < length (store g) then AList.update q w (outgoingEdges (store g ! b))
             else outgoingEdges (store g ! b))"
    and "incomingEdges (store (snd (Connect g f t w)) ! b)
          = (if b = q \<and> q < length (store g) then AList.update p w (incomingEdges (store g ! b))
             else incomingEdges (store g ! b))"
    and "key (store (snd (Connect g f t w)) ! b) = key (store g ! b)"
    and "val (store (snd (Connect g f t w)) ! b) = val (store g ! b)"
  using assms
  by (simp_all add: Connect_def Let_def upd_in_nth upd_out_nth upd_in_nth_other upd_out_nth_other)

lemma Connect_fail:
  "\<not> fst (Connect g f t w) \<Longrightarrow> snd (Connect g f t w) = g"
  by (auto simp: Connect_def Let_def split: option.splits if_splits)

lemma Disconnect_ok:
  assumes "f \<noteq> t" "get g f = Some p" "get g t = Some q"
  shows "fst (Disconnect g f t)"
    and "vertices (snd (Disconnect g f t)) = vertices g"
    and "length (store (snd (Disconnect g f t))) = length (store g)"
    and "outgoingEdges (store (snd (Disconnect g f t)) ! b)
          = (if b = p \<and> p < length (store g) then AList.delete q (outgoingEdges (store g ! b))
             else outgoingEdges (store g ! b))"
    and "incomingEdges (store (snd (Disconnect g f t)) ! b)
          = (if b = q \<and> q < length (store g) then AList.delete p (incomingEdges (store g ! b))
             else incomingEdges (store g ! b))"
    and "key (store (snd (Disconnect g f t)) ! b) = key (store g ! b)"
    and "val (store (snd (Disconnect g f t)) ! b) = val (store g ! b)"
  using assms
  by (simp_all add: Disconnect_def Let_def upd_in_nth upd_out_nth upd_in_nth_other upd_out_nth_other)

lemma Disconnect_fail:
  "\<not> fst (Disconnect g f t) \<Longrightarrow> snd (Disconnect g f t) = g"
  by (auto simp: Disconnect_def Let_def split: option.splits if_splits)

lemma consistent_Connect: assumes "consistent g" shows "consistent (snd (Connect g f t w))"
proof -
  consider (fail) "snd (Connect g f t w) = g"
    | (ok) p q where "f \<noteq> t" "get g f = Some p" "get g t = Some q"
    by (cases "f = t"; cases "get g f"; cases "get g t") (auto simp: Connect_def)
  then show ?thesis
  proof cases
  case fail
  then show ?thesis using assms by simp
next
  case (ok p q)
  let ?g = "snd (Connect g f t w)"
  note c = Connect_ok [OF ok]
  have pl: "p \<in> live g" and ql: "q \<in> live g"
    using ok by (auto dest: get_Some_live)
  have pq: "p \<noteq> q" using consistent_inj [OF assms] ok by blast
  have lt: "p < length (store g)" "q < length (store g)"
    using live_lt [OF assms] pl ql by auto
  have lv: "live ?g = live g" by (simp add: live_def c)
  show ?thesis
  proof (rule consistentI)
    show "distinct (map fst (vertices ?g))" using consistent_distinct [OF assms] by (simp add: c)
  next
    fix k a assume "(k, a) \<in> set (vertices ?g)"
    then show "a < length (store ?g) \<and> key (store ?g ! a) = k"
      using consistent_mem [OF assms, of k a] by (simp add: c)
  next
    fix a b w'
    assume a: "a \<in> live ?g" and e: "map_of (outgoingEdges (store ?g ! a)) b = Some w'"
    show "b \<in> live ?g \<and> b \<noteq> a \<and> map_of (incomingEdges (store ?g ! b)) a = Some w'"
    proof (cases "a = p \<and> b = q")
      case True
      then have "w' = w" using e lt by (simp add: c update_conv')
      then show ?thesis using True pq ql lt by (simp add: c lv update_conv')
    next
      case False
      then have "map_of (outgoingEdges (store g ! a)) b = Some w'"
        using e lt by (auto simp: c update_conv' split: if_splits)
      from consistent_out [OF assms _ this] a False show ?thesis
        by (auto simp: c lv update_conv')
    qed
  next
    fix a b w'
    assume a: "a \<in> live ?g" and e: "map_of (incomingEdges (store ?g ! a)) b = Some w'"
    show "b \<in> live ?g \<and> b \<noteq> a \<and> map_of (outgoingEdges (store ?g ! b)) a = Some w'"
    proof (cases "a = q \<and> b = p")
      case True
      then have "w' = w" using e lt by (simp add: c update_conv')
      then show ?thesis using True pq pl lt by (simp add: c lv update_conv')
    next
      case False
      then have "map_of (incomingEdges (store g ! a)) b = Some w'"
        using e lt by (auto simp: c update_conv' split: if_splits)
      from consistent_in [OF assms _ this] a False show ?thesis
        by (auto simp: c lv update_conv')
    qed
  next
    fix a assume "a \<in> live ?g"
    then show "distinct (map fst (outgoingEdges (store ?g ! a)))
        \<and> distinct (map fst (incomingEdges (store ?g ! a)))"
      using consistent_edges_distinct [OF assms, of a] by (auto simp: c lv intro: distinct_update)
  qed
qed
qed

lemma consistent_Disconnect: assumes "consistent g" shows "consistent (snd (Disconnect g f t))"
proof -
  consider (fail) "snd (Disconnect g f t) = g"
    | (ok) p q where "f \<noteq> t" "get g f = Some p" "get g t = Some q"
    by (cases "f = t"; cases "get g f"; cases "get g t") (auto simp: Disconnect_def)
  then show ?thesis
  proof cases
  case fail
  then show ?thesis using assms by simp
next
  case (ok p q)
  let ?g = "snd (Disconnect g f t)"
  note c = Disconnect_ok [OF ok]
  have pl: "p \<in> live g" and ql: "q \<in> live g"
    using ok by (auto dest: get_Some_live)
  have lt: "p < length (store g)" "q < length (store g)"
    using live_lt [OF assms] pl ql by auto
  have lv: "live ?g = live g" by (simp add: live_def c)
  show ?thesis
  proof (rule consistentI)
    show "distinct (map fst (vertices ?g))" using consistent_distinct [OF assms] by (simp add: c)
  next
    fix k a assume "(k, a) \<in> set (vertices ?g)"
    then show "a < length (store ?g) \<and> key (store ?g ! a) = k"
      using consistent_mem [OF assms, of k a] by (simp add: c)
  next
    fix a b w'
    assume a: "a \<in> live ?g" and e: "map_of (outgoingEdges (store ?g ! a)) b = Some w'"
    have nb: "\<not> (a = p \<and> b = q)" using e lt by (auto simp: c delete_conv')
    then have "map_of (outgoingEdges (store g ! a)) b = Some w'"
      using e lt by (auto simp: c delete_conv' split: if_splits)
    from consistent_out [OF assms _ this] a nb
    show "b \<in> live ?g \<and> b \<noteq> a \<and> map_of (incomingEdges (store ?g ! b)) a = Some w'"
      by (auto simp: c lv delete_conv')
  next
    fix a b w'
    assume a: "a \<in> live ?g" and e: "map_of (incomingEdges (store ?g ! a)) b = Some w'"
    have nb: "\<not> (a = q \<and> b = p)" using e lt by (auto simp: c delete_conv')
    then have "map_of (incomingEdges (store g ! a)) b = Some w'"
      using e lt by (auto simp: c delete_conv' split: if_splits)
    from consistent_in [OF assms _ this] a nb
    show "b \<in> live ?g \<and> b \<noteq> a \<and> map_of (outgoingEdges (store ?g ! b)) a = Some w'"
      by (auto simp: c lv delete_conv')
  next
    fix a assume "a \<in> live ?g"
    then show "distinct (map fst (outgoingEdges (store ?g ! a)))
        \<and> distinct (map fst (incomingEdges (store ?g ! a)))"
      using consistent_edges_distinct [OF assms, of a] by (auto simp: c lv intro: distinct_delete)
  qed
qed
qed

text \<open>\<^verbatim>\<open>Delete\<close>: its effect on the store, on the set of registered vertices and on the edge maps of the survivors.\<close>

lemma keys_iff: "b \<in> fst ` set al \<longleftrightarrow> map_of al b \<noteq> None"
  by (simp add: map_of_eq_None_iff)

lemma Delete_absent: "get g k = None \<Longrightarrow> Delete g k = (False, g)"
  by (simp add: Delete_def)

lemma Delete_ok:
  assumes "get g k = Some a"
  shows "fst (Delete g k)"
    and "vertices (snd (Delete g k)) = AList.delete k (vertices g)"
    and "length (store (snd (Delete g k))) = length (store g)"
    and "outgoingEdges (store (snd (Delete g k)) ! b)
          = (if b \<in> fst ` set (incomingEdges (store g ! a)) \<and> b < length (store g)
             then AList.delete a (outgoingEdges (store g ! b)) else outgoingEdges (store g ! b))"
    and "key (store (snd (Delete g k)) ! b) = key (store g ! b)"
    and "val (store (snd (Delete g k)) ! b) = val (store g ! b)"
  using assms
  by (simp_all add: Delete_def Let_def strip_incoming_out strip_outgoing_out
      strip_incoming_key strip_outgoing_key strip_incoming_val strip_outgoing_val)

lemma Delete_ok_in:
  assumes "get g k = Some a" "a \<notin> fst ` set (incomingEdges (store g ! a))"
  shows "incomingEdges (store (snd (Delete g k)) ! b)
          = (if b \<in> fst ` set (outgoingEdges (store g ! a)) \<and> b < length (store g)
             then AList.delete a (incomingEdges (store g ! b)) else incomingEdges (store g ! b))"
  using assms
  by (simp add: Delete_def Let_def strip_incoming_in strip_outgoing_in strip_outgoing_out)

lemma consistent_no_self_in:
  assumes "consistent g" "a \<in> live g"
  shows "a \<notin> fst ` set (incomingEdges (store g ! a))"
proof
  assume "a \<in> fst ` set (incomingEdges (store g ! a))"
  then obtain w where "map_of (incomingEdges (store g ! a)) a = Some w"
    by (auto simp: keys_iff)
  then show False using consistent_in [OF assms] by blast
qed

lemma set_delete: "set (AList.delete k al) = {x \<in> set al. fst x \<noteq> k}"
  by (induction al) auto

lemma live_Delete:
  assumes "consistent g" "get g k = Some a"
  shows "live (snd (Delete g k)) = live g - {a}"
proof -
  have m: "(k, a) \<in> set (vertices g)" using assms(2) by (rule get_Some_mem)
  have 1: "a' = a" if "(k, a') \<in> set (vertices g)" for a'
    using eq_key_imp_eq_value [OF consistent_distinct [OF assms(1)] that m] .
  have 2: "k' = k" if "(k', a) \<in> set (vertices g)" for k'
    using consistent_mem [OF assms(1) that] consistent_mem [OF assms(1) m] by simp
  have v: "set (vertices (snd (Delete g k))) = {x \<in> set (vertices g). fst x \<noteq> k}"
    by (simp add: Delete_ok(2) [OF assms(2)] set_delete)
  show ?thesis
  proof (rule set_eqI)
    fix b
    show "b \<in> live (snd (Delete g k)) \<longleftrightarrow> b \<in> live g - {a}"
    proof
      assume "b \<in> live (snd (Delete g k))"
      then obtain k' where "(k', b) \<in> set (vertices g)" "k' \<noteq> k"
        unfolding live_def v by auto
      then show "b \<in> live g - {a}" using 2 unfolding live_def by force
    next
      assume "b \<in> live g - {a}"
      then obtain k' where "(k', b) \<in> set (vertices g)" "b \<noteq> a"
        unfolding live_def by auto
      then show "b \<in> live (snd (Delete g k))" using 1 unfolding live_def v by force
    qed
  qed
qed

lemma Delete_edges:
  assumes "consistent g" "get g k = Some a" "b \<in> live g"
  shows "map_of (outgoingEdges (store (snd (Delete g k)) ! b)) c
           = (if c = a then None else map_of (outgoingEdges (store g ! b)) c)"
    and "map_of (incomingEdges (store (snd (Delete g k)) ! b)) c
           = (if c = a then None else map_of (incomingEdges (store g ! b)) c)"
proof -
  have al: "a \<in> live g" using assms(2) by (rule get_Some_live)
  note ns = consistent_no_self_in [OF assms(1) al]
  have o: "b \<notin> fst ` set (incomingEdges (store g ! a)) \<Longrightarrow>
             map_of (outgoingEdges (store g ! b)) a = None"
    using consistent_out [OF assms(1,3), of a] by (cases "map_of (outgoingEdges (store g ! b)) a") (auto simp: keys_iff)
  have i: "b \<notin> fst ` set (outgoingEdges (store g ! a)) \<Longrightarrow>
             map_of (incomingEdges (store g ! b)) a = None"
    using consistent_in [OF assms(1,3), of a] by (cases "map_of (incomingEdges (store g ! b)) a") (auto simp: keys_iff)
  have lt: "b < length (store g)" using live_lt [OF assms(1,3)] .
  show "map_of (outgoingEdges (store (snd (Delete g k)) ! b)) c
           = (if c = a then None else map_of (outgoingEdges (store g ! b)) c)"
    using o lt by (auto simp: Delete_ok(4) [OF assms(2)] delete_conv')
  show "map_of (incomingEdges (store (snd (Delete g k)) ! b)) c
           = (if c = a then None else map_of (incomingEdges (store g ! b)) c)"
    using i lt by (auto simp: Delete_ok_in [OF assms(2) ns] delete_conv')
qed

lemma consistent_Delete: assumes "consistent g" shows "consistent (snd (Delete g k))"
proof (cases "get g k")
  case None
  then show ?thesis using assms by (simp add: Delete_absent)
next
  case (Some a)
  let ?g = "snd (Delete g k)"
  note d = Delete_ok [OF Some]
  note lv = live_Delete [OF assms Some]
  show ?thesis
  proof (rule consistentI)
    show "distinct (map fst (vertices ?g))"
      using consistent_distinct [OF assms] by (simp add: d distinct_delete)
  next
    fix k' a' assume "(k', a') \<in> set (vertices ?g)"
    then have "(k', a') \<in> set (vertices g)" by (simp add: d set_delete)
    then show "a' < length (store ?g) \<and> key (store ?g ! a') = k'"
      using consistent_mem [OF assms] by (simp add: d)
  next
    fix b c w
    assume b: "b \<in> live ?g" and e: "map_of (outgoingEdges (store ?g ! b)) c = Some w"
    from b have bl: "b \<in> live g" and ba: "b \<noteq> a" by (auto simp: lv)
    from e have ca: "c \<noteq> a" and e': "map_of (outgoingEdges (store g ! b)) c = Some w"
      by (auto simp: Delete_edges [OF assms Some bl] split: if_splits)
    from consistent_out [OF assms bl e'] ca ba
    show "c \<in> live ?g \<and> c \<noteq> b \<and> map_of (incomingEdges (store ?g ! c)) b = Some w"
      by (simp add: lv Delete_edges [OF assms Some])
  next
    fix b c w
    assume b: "b \<in> live ?g" and e: "map_of (incomingEdges (store ?g ! b)) c = Some w"
    from b have bl: "b \<in> live g" and ba: "b \<noteq> a" by (auto simp: lv)
    from e have ca: "c \<noteq> a" and e': "map_of (incomingEdges (store g ! b)) c = Some w"
      by (auto simp: Delete_edges [OF assms Some bl] split: if_splits)
    from consistent_in [OF assms bl e'] ca ba
    show "c \<in> live ?g \<and> c \<noteq> b \<and> map_of (outgoingEdges (store ?g ! c)) b = Some w"
      by (simp add: lv Delete_edges [OF assms Some])
  next
    fix b assume "b \<in> live ?g"
    then have bl: "b \<in> live g" by (simp add: lv)
    have al: "a \<in> live g" using Some by (rule get_Some_live)
    show "distinct (map fst (outgoingEdges (store ?g ! b)))
        \<and> distinct (map fst (incomingEdges (store ?g ! b)))"
      using consistent_edges_distinct [OF assms bl]
      by (auto simp: d Delete_ok_in [OF Some consistent_no_self_in [OF assms al]]
          intro: distinct_delete)
  qed
qed

lemma reachable_consistent: "reachable g \<Longrightarrow> consistent g"
  by (induction rule: reachable.induct)
     (simp_all add: consistent_New consistent_Set consistent_Delete consistent_Connect consistent_Disconnect)

text \<open>The example graph, evaluated; \<^verbatim>\<open>IsConnected\<close> in terms of the outgoing map.\<close>

lemma example_eq:
  "example = \<lparr>vertices = [(''1'', 0), (''2'', 1), (''3'', 2), (''4'', 3)],
     store = [\<lparr>key = ''1'', val = Inl 123, incomingEdges = [(2, 9)], outgoingEdges = [(1, 5)]\<rparr>,
              \<lparr>key = ''2'', val = Inl 678, incomingEdges = [(0, 5), (3, 3)], outgoingEdges = [(2, 1)]\<rparr>,
              \<lparr>key = ''3'', val = Inr ''abc'', incomingEdges = [(1, 1)], outgoingEdges = [(0, 9)]\<rparr>,
              \<lparr>key = ''4'', val = Inr ''xyz'', incomingEdges = [], outgoingEdges = [(1, 3)]\<rparr>]\<rparr>"
  by (simp add: example_def New_def Set_def Connect_def get_def Let_def)

lemma reachable_example: "reachable example"
  unfolding example_def by (intro reachable.intros)

lemma scan_map_of:
  "scan t al = (case map_of al t of None \<Rightarrow> (False, 0) | Some w \<Rightarrow> (True, w))"
  by (induction al) auto

lemma consistent_sym:
  assumes "consistent g" "a \<in> live g" "b \<in> live g"
  shows "map_of (outgoingEdges (store g ! a)) b = map_of (incomingEdges (store g ! b)) a"
proof (cases "map_of (outgoingEdges (store g ! a)) b")
  case None
  show ?thesis
  proof (cases "map_of (incomingEdges (store g ! b)) a")
    case (Some w)
    from consistent_in [OF assms(1,3) Some] None show ?thesis by simp
  qed (simp add: None)
next
  case (Some w)
  from consistent_out [OF assms(1,2) Some] Some show ?thesis by simp
qed

lemma IsConnected_edge:
  assumes "consistent g" "get g a = Some p" "get g b = Some q" "a \<noteq> b"
  shows "IsConnected g a b
           = (case map_of (outgoingEdges (store g ! p)) q of None \<Rightarrow> (False, 0) | Some w \<Rightarrow> (True, w))"
  using assms consistent_sym [OF assms(1) get_Some_live [OF assms(2)] get_Some_live [OF assms(3)]]
  by (simp add: IsConnected_def scan_map_of)

section \<open>Connect: when it fails\<close>

text \<open>
  C7. \<^verbatim>\<open>Connect(fromKey, toKey, w)\<close> returns false exactly when the two keys are equal or
  one of them is not in the graph, and a call that returns false leaves the graph as it was.
\<close>

theorem Connect_false_iff:
  "(\<not> fst (Connect g fromKey toKey w)
      \<longleftrightarrow> fromKey = toKey \<or> get g fromKey = None \<or> get g toKey = None)
   \<and> (\<not> fst (Connect g fromKey toKey w) \<longrightarrow> snd (Connect g fromKey toKey w) = g)"
  by (auto simp: Connect_def Let_def split: option.splits)

theorem Connect_false_iff_witness:
  "\<not> fst (Connect (Set New ''a'' (1::nat)) ''a'' ''a'' 5)
   \<and> snd (Connect (Set New ''a'' (1::nat)) ''a'' ''a'' 5) = Set New ''a'' 1"
  using Connect_false_iff [of "Set New ''a'' (1::nat)" "''a''" "''a''" 5] by simp

section \<open>Delete leaves no orphaned references\<close>

text \<open>
  C1. In every state of the graph, \<^verbatim>\<open>Delete(a)\<close> on a key that is present returns true,
  removes the key from the registry, and afterwards no vertex still registered has the
  deleted vertex in its incoming or in its outgoing edge map; on a key that is not present
  it returns false (and changes nothing).
\<close>

theorem Delete_no_orphans:
  assumes "reachable g"
  shows "case get g a of
           None \<Rightarrow> Delete g a = (False, g)
         | Some p \<Rightarrow>
             fst (Delete g a) \<and> get (snd (Delete g a)) a = None
           \<and> (\<forall>b q. get (snd (Delete g a)) b = Some q \<longrightarrow>
                 p \<notin> fst ` set (GetIncoming (snd (Delete g a)) (Some q))
               \<and> p \<notin> fst ` set (GetOutgoing (snd (Delete g a)) (Some q)))"
proof (cases "get g a")
  case None
  then show ?thesis by (simp add: Delete_absent)
next
  case (Some p)
  have w: "consistent g" using assms by (rule reachable_consistent)
  let ?g = "snd (Delete g a)"
  have "get ?g a = None"
    by (simp add: get_def Delete_ok(2) [OF Some] delete_conv')
  moreover have "p \<notin> fst ` set (GetIncoming ?g (Some q)) \<and> p \<notin> fst ` set (GetOutgoing ?g (Some q))"
    if "get ?g b = Some q" for b q
  proof -
    have "q \<in> live ?g" using that by (rule get_Some_live)
    then have "q \<in> live g" by (simp add: live_Delete [OF w Some])
    then show ?thesis
      by (simp add: GetIncoming_def GetOutgoing_def keys_iff Delete_edges [OF w Some])
  qed
  ultimately show ?thesis using Some by (simp add: Delete_ok(1) [OF Some])
qed

theorem Delete_no_orphans_witness:
  "fst (Delete example ''1'') \<and> get (snd (Delete example ''1'')) ''1'' = None
   \<and> get (snd (Delete example ''1'')) ''2'' = Some 1
   \<and> 0 \<notin> fst ` set (GetIncoming (snd (Delete example ''1'')) (Some 1))
   \<and> Delete example ''5'' = (False, example)"
proof -
  have 1: "get example ''1'' = Some 0" and 5: "get example ''5'' = None"
    by (simp_all add: example_eq get_def)
  have 2: "get (snd (Delete example ''1'')) ''2'' = Some 1"
    by (simp add: example_eq get_def Delete_def Let_def)
  from Delete_no_orphans [OF reachable_example, of "''1''"] Delete_no_orphans [OF reachable_example, of "''5''"]
  show ?thesis using 2 by (simp add: 1 5)
qed

section \<open>Edge symmetry\<close>

text \<open>
  C2. Edge symmetry holds in every state that \<^verbatim>\<open>Set\<close>, \<^verbatim>\<open>Delete\<close>, \<^verbatim>\<open>Connect\<close> and
  \<^verbatim>\<open>Disconnect\<close> can produce from the empty graph: for two vertices A and B of the graph,
  A's outgoing map holds B with weight \<open>w\<close> exactly when B's incoming map holds A with
  weight \<open>w\<close>.
\<close>

theorem edge_symmetry:
  assumes "reachable g" "get g ka = Some a" "get g kb = Some b"
  shows "map_of (GetOutgoing g (Some a)) b = Some w \<longleftrightarrow> map_of (GetIncoming g (Some b)) a = Some w"
  using consistent_sym [OF reachable_consistent [OF assms(1)] get_Some_live [OF assms(2)] get_Some_live [OF assms(3)]]
  by (simp add: GetOutgoing_def GetIncoming_def)

theorem edge_symmetry_witness:
  "map_of (GetOutgoing example (Some 0)) 1 = Some 5 \<and> map_of (GetIncoming example (Some 1)) 0 = Some 5"
proof -
  have 1: "get example ''1'' = Some 0" and 2: "get example ''2'' = Some 1"
    by (simp_all add: example_eq get_def)
  have "map_of (GetOutgoing example (Some 0)) 1 = Some 5"
    by (simp add: example_eq GetOutgoing_def)
  with edge_symmetry [OF reachable_example 1 2, of 5] show ?thesis by simp
qed

section \<open>Connect followed by IsConnected\<close>

text \<open>
  C3. For two distinct keys \<open>a\<close>, \<open>b\<close> of the graph and any weight \<open>w\<close>: right after
  \<^verbatim>\<open>Connect(a,b,w)\<close>, \<^verbatim>\<open>IsConnected(a,b)\<close> is \<open>(true, w)\<close>, and \<^verbatim>\<open>IsConnected(b,a)\<close>
  answers what it answered before the call, which is true only when the graph holds a
  separate edge from \<open>b\<close> to \<open>a\<close>.
\<close>

theorem Connect_then_IsConnected:
  assumes "reachable g" "a \<noteq> b" "get g a = Some p" "get g b = Some q"
  shows "IsConnected (snd (Connect g a b w)) a b = (True, w)
       \<and> IsConnected (snd (Connect g a b w)) b a = IsConnected g b a
       \<and> (fst (IsConnected g b a) \<longleftrightarrow> p \<in> fst ` set (GetOutgoing g (Some q)))"
proof -
  have consistent: "consistent g" using assms(1) by (rule reachable_consistent)
  let ?g = "snd (Connect g a b w)"
  have consistent': "consistent ?g" using consistent by (rule consistent_Connect)
  note c = Connect_ok [OF assms(2-4)]
  have g': "get ?g a = Some p" "get ?g b = Some q"
    using assms by (simp_all add: get_def c)
  have lt: "p < length (store g)" "q < length (store g)"
    using consistent_get [OF consistent] assms by auto
  have pq: "p \<noteq> q" using consistent_inj [OF consistent] assms by blast
  have 1: "IsConnected ?g a b = (True, w)"
    using lt by (simp add: IsConnected_edge [OF consistent' g' assms(2)] c update_conv')
  have 2: "IsConnected ?g b a = IsConnected g b a"
    using pq assms(2) 
    by (simp add: IsConnected_edge [OF consistent' g'(2,1)] IsConnected_edge [OF consistent assms(4,3)] c)
  have 3: "fst (IsConnected g b a) \<longleftrightarrow> p \<in> fst ` set (GetOutgoing g (Some q))"
    using assms(2)
    by (simp add: IsConnected_edge [OF consistent assms(4,3)] GetOutgoing_def keys_iff split: option.splits)
  from 1 2 3 show ?thesis by blast
qed

theorem Connect_then_IsConnected_witness:
  "IsConnected (snd (Connect example ''1'' ''4'' 7)) ''1'' ''4'' = (True, 7)
   \<and> \<not> fst (IsConnected (snd (Connect example ''1'' ''4'' 7)) ''4'' ''1'')"
proof -
  have 1: "get example ''1'' = Some 0" and 4: "get example ''4'' = Some 3"
    by (simp_all add: example_eq get_def)
  have n: "''1'' \<noteq> ''4''" by simp
  have "0 \<notin> fst ` set (GetOutgoing example (Some 3))"
    by (simp add: example_eq GetOutgoing_def)
  with Connect_then_IsConnected [OF reachable_example n 1 4, of 7] show ?thesis by simp
qed

section \<open>The priority queue\<close>

lemma pop_min_props:
  "pop_min x xs = (m, rest) \<Longrightarrow>
     set (x # xs) = insert m (set rest)
   \<and> (distinct (map f (x # xs)) \<longrightarrow> distinct (map f (m # rest)))"
proof (induction xs arbitrary: x m rest)
  case Nil
  then show ?case by auto
next
  case (Cons y ys)
  obtain m' rest' where p: "pop_min y ys = (m', rest')" by (cases "pop_min y ys")
  note ih = Cons.IH [OF p]
  show ?case
  proof (cases "priority m' < priority x")
    case True
    with Cons.prems p have mr: "m = m'" "rest = x # rest'" by auto
    from ih have s: "set (y # ys) = insert m' (set rest')"
      and d: "distinct (map f (y # ys)) \<longrightarrow> distinct (map f (m' # rest'))" by blast+
    have 1: "set (x # y # ys) = insert m (set rest)"
      using s mr by auto
    have 2: "distinct (map f (m # rest))" if dx: "distinct (map f (x # y # ys))"
    proof -
      from dx have "f x \<notin> f ` set (y # ys)" and "distinct (map f (y # ys))" by auto
      with d s have "f x \<notin> f ` insert m' (set rest')" and "distinct (map f (m' # rest'))"
        by auto
      then show ?thesis unfolding mr by auto
    qed
    from 1 2 show ?thesis by blast
  next
    case False
    with Cons.prems p have "m = x" "rest = y # ys" by auto
    then show ?thesis by auto
  qed
qed

lemma heap_Pop_props:
  assumes "heap_Pop q = Some (m, rest)"
  shows "set q = insert m (set rest)"
    and "distinct (map f q) \<Longrightarrow> distinct (map f rest) \<and> f m \<notin> f ` set rest"
proof -
  from assms obtain x xs where q: "q = x # xs" and p: "pop_min x xs = (m, rest)"
    by (auto simp: heap_Pop_def split: list.splits)
  from pop_min_props [OF p, of f] q show "set q = insert m (set rest)" by simp
  from pop_min_props [OF p, of f] q
  show "distinct (map f q) \<Longrightarrow> distinct (map f rest) \<and> f m \<notin> f ` set rest" by auto
qed

lemma heap_Pop_nonempty: "q \<noteq> [] \<Longrightarrow> \<exists>m rest. heap_Pop q = Some (m, rest)"
  by (cases q; cases "pop_min (hd q) (tl q)") (auto simp: heap_Pop_def)

lemma item_index_props: "md \<in> set q \<Longrightarrow> item_index q md < length q \<and> q ! item_index q md = md"
  by (induction q) auto

lemma remove_nth_props:
  assumes "distinct (map f q)" "i < length q"
  shows "distinct (map f (take i q @ drop (Suc i) q))"
    and "set (take i q @ drop (Suc i) q) = set q - {q ! i}"
    and "f (q ! i) \<notin> f ` set (take i q @ drop (Suc i) q)"
proof -
  have q: "q = take i q @ q ! i # drop (Suc i) q"
    using assms(2) by (rule id_take_nth_drop)
  have d: "distinct (map f (take i q @ q ! i # drop (Suc i) q))"
    using assms(1) q by simp
  from d show 1: "distinct (map f (take i q @ drop (Suc i) q))" by auto
  from d show 3: "f (q ! i) \<notin> f ` set (take i q @ drop (Suc i) q)" by auto
  have "set q = insert (q ! i) (set (take i q @ drop (Suc i) q))"
    by (subst q) auto
  moreover have "q ! i \<notin> set (take i q @ drop (Suc i) q)" using 3 by blast
  ultimately show "set (take i q @ drop (Suc i) q) = set q - {q ! i}" by blast
qed

section \<open>The path loop returns\<close>

lemma build_path_returns:
  "chain_ok closedList c \<Longrightarrow> \<exists>path'. build_path g closedList c path = Some (Inr path')"
proof (induction arbitrary: path rule: chain_ok.induct)
  case chain_nil
  show ?case by (subst build_path.simps) simp
next
  case (chain_step a ci)
  from chain_step.IH [of "path @ [key (store g ! a)]"] chain_step.hyps(1)
  show ?case by (subst build_path.simps) simp
qed

lemma chain_ok_mono:
  "chain_ok closedList c \<Longrightarrow> closedList x = None \<Longrightarrow> chain_ok (closedList(x \<mapsto> e)) c"
proof (induction rule: chain_ok.induct)
  case chain_nil
  show ?case by (rule chain_ok.chain_nil)
next
  case (chain_step a ci)
  from chain_step.hyps(1) chain_step.prems have "Some a \<noteq> x" by auto
  with chain_step.hyps(1) have "(closedList(x \<mapsto> e)) (Some a) = Some (Some ci)" by simp
  then show ?case using chain_step.IH [OF chain_step.prems] by (rule chain_ok.chain_step)
qed

section \<open>The loop invariant of the search\<close>

lemma search_inv_push:
  assumes "search_inv g q ol cl" "ol x = None" "cl x = None" "x \<in> nodes g"
    "item_v it = x" "chain_ok cl (item_prev it)"
  shows "search_inv g (heap_Push q it) (ol(x \<mapsto> it)) cl"
proof -
  from assms(1) have d: "distinct (map item_v q)"
    and q: "\<And>i. i \<in> set q \<Longrightarrow> ol (item_v i) = Some i \<and> chain_ok cl (item_prev i) \<and> item_v i \<in> nodes g"
    and o: "\<And>y i. ol y = Some i \<Longrightarrow> i \<in> set q \<and> item_v i = y"
    and c: "\<And>y e. cl y = Some e \<Longrightarrow> ol y = None \<and> y \<in> nodes g
              \<and> (\<exists>ci. e = Some ci \<and> chain_ok cl (item_prev ci))"
    unfolding search_inv_def by blast+
  have nx: "\<And>i. i \<in> set q \<Longrightarrow> item_v i \<noteq> x" using q assms(2) by fastforce
  then have nx': "x \<notin> item_v ` set q" by blast
  show ?thesis
    unfolding search_inv_def heap_Push_def
  proof (intro conjI ballI allI impI)
    show "distinct (map item_v (q @ [it]))" using d nx' assms(5) by simp
  next
    fix i assume "i \<in> set (q @ [it])"
    then consider "i \<in> set q" | "i = it" by auto
    then show "(ol(x \<mapsto> it)) (item_v i) = Some i"
      using q nx assms(5) by cases auto
  next
    fix i assume "i \<in> set (q @ [it])"
    then show "chain_ok cl (item_prev i)" using q assms(6) by auto
  next
    fix i assume "i \<in> set (q @ [it])"
    then show "item_v i \<in> nodes g" using q assms(4,5) by auto
  next
    fix y i assume "(ol(x \<mapsto> it)) y = Some i"
    then show "i \<in> set (q @ [it])" using o by (auto split: if_splits)
  next
    fix y i assume "(ol(x \<mapsto> it)) y = Some i"
    then show "item_v i = y" using o assms(5) by (auto split: if_splits)
  next
    fix y e assume "cl y = Some e"
    then show "(ol(x \<mapsto> it)) y = None" using c assms(3) by auto
  next
    fix y e assume "cl y = Some e"
    then show "y \<in> nodes g" using c by blast
  next
    fix y e assume "cl y = Some e"
    then show "\<exists>ci. e = Some ci \<and> chain_ok cl (item_prev ci)" using c by blast
  qed
qed

lemma search_inv_remove:
  assumes "search_inv g q ol cl" "ol x = Some md"
  shows "\<exists>q'. heap_Remove q (item_index q md) = Some q' \<and> search_inv g q' (ol(x := None)) cl"
proof -
  from assms(1) have d: "distinct (map item_v q)"
    and q: "\<And>i. i \<in> set q \<Longrightarrow> ol (item_v i) = Some i \<and> chain_ok cl (item_prev i) \<and> item_v i \<in> nodes g"
    and o: "\<And>y i. ol y = Some i \<Longrightarrow> i \<in> set q \<and> item_v i = y"
    and c: "\<And>y e. cl y = Some e \<Longrightarrow> ol y = None \<and> y \<in> nodes g
              \<and> (\<exists>ci. e = Some ci \<and> chain_ok cl (item_prev ci))"
    unfolding search_inv_def by blast+
  let ?i = "item_index q md"
  let ?q = "take ?i q @ drop (Suc ?i) q"
  from o [OF assms(2)] have md: "md \<in> set q" "item_v md = x" by auto
  from item_index_props [OF md(1)] have i: "?i < length q" "q ! ?i = md" by auto
  note r = remove_nth_props [OF d i(1), unfolded i(2)]
  have nx: "\<And>i. i \<in> set ?q \<Longrightarrow> item_v i \<noteq> x" using r(3) md(2) by blast
  have sub: "\<And>i. i \<in> set ?q \<Longrightarrow> i \<in> set q" using r(2) by blast
  have "search_inv g ?q (ol(x := None)) cl"
    unfolding search_inv_def
  proof (intro conjI ballI allI impI)
    show "distinct (map item_v ?q)" by (rule r(1))
  next
    fix i assume "i \<in> set ?q"
    then show "(ol(x := None)) (item_v i) = Some i" using q sub nx by auto
  next
    fix i assume "i \<in> set ?q"
    then show "chain_ok cl (item_prev i)" using q sub by blast
  next
    fix i assume "i \<in> set ?q"
    then show "item_v i \<in> nodes g" using q sub by blast
  next
    fix y i assume a: "(ol(x := None)) y = Some i"
    then have "y \<noteq> x" "ol y = Some i" by (auto split: if_splits)
    with o [of y i] md(2) have "i \<in> set q" "i \<noteq> md" by auto
    then show "i \<in> set ?q" using r(2) by blast
  next
    fix y i assume "(ol(x := None)) y = Some i"
    then show "item_v i = y" using o by (auto split: if_splits)
  next
    fix y e assume "cl y = Some e"
    then show "(ol(x := None)) y = None" using c by auto
  next
    fix y e assume "cl y = Some e"
    then show "y \<in> nodes g" using c by blast
  next
    fix y e assume "cl y = Some e"
    then show "\<exists>ci. e = Some ci \<and> chain_ok cl (item_prev ci)" using c by blast
  qed
  then show ?thesis using i(1) by (simp add: heap_Remove_def)
qed

lemma search_inv_replace:
  assumes "search_inv g q ol cl" "ol x = Some md" "cl x = None" "x \<in> nodes g"
    "item_v it = x" "chain_ok cl (item_prev it)"
  shows "\<exists>q'. heap_Remove q (item_index q md) = Some q'
           \<and> search_inv g (heap_Push q' it) (ol(x \<mapsto> it)) cl"
proof -
  from search_inv_remove [OF assms(1,2)] obtain q' where
    r: "heap_Remove q (item_index q md) = Some q'" and i: "search_inv g q' (ol(x := None)) cl"
    by blast
  have "search_inv g (heap_Push q' it) ((ol(x := None))(x \<mapsto> it)) cl"
    using i _ assms(3-6) by (rule search_inv_push) simp
  then show ?thesis using r by simp
qed

lemma visit_neighbors_inv:
  assumes "search_inv g q ol cl" "chain_ok cl current" "\<forall>n \<in> fst ` set nbrs. Some n \<in> nodes g"
  shows "\<exists>q' ol'. visit_neighbors g h endKey current distance cl nbrs q ol = Inr (q', ol')
           \<and> search_inv g q' ol' cl"
  using assms
proof (induction nbrs arbitrary: q ol)
  case Nil
  then show ?case by simp
next
  case (Cons nw nbrs)
  obtain n w where nw: "nw = (n, w)" by (cases nw)
  from Cons.prems(3) have nn: "Some n \<in> nodes g"
    and rest: "\<forall>n \<in> fst ` set nbrs. Some n \<in> nodes g" by (auto simp: nw)
  note ih = Cons.IH [OF _ Cons.prems(2) rest]
  let ?it = "\<lparr>item_v = Some n, item_prev = current, distanceFromStart = go_add distance w,
               priority = go_add (go_add distance w) (h (key (store g ! n)) endKey)\<rparr>"
  let ?v = "visit_neighbors g h endKey current distance cl"
  show ?case
  proof (cases "cl (Some n) = None")
    case False
    then have "?v (nw # nbrs) q ol = ?v nbrs q ol" by (simp add: nw)
    then show ?thesis using ih [OF Cons.prems(1)] by simp
  next
    case closed: True
    show ?thesis
    proof (cases "ol (Some n)")
      case None
      have "search_inv g (heap_Push q ?it) (ol(Some n \<mapsto> ?it)) cl"
        using Cons.prems(1) None closed nn _ _ by (rule search_inv_push) (simp_all add: Cons.prems(2))
      then have "\<exists>q' ol'. ?v nbrs (heap_Push q ?it) (ol(Some n \<mapsto> ?it)) = Inr (q', ol')
           \<and> search_inv g q' ol' cl" by (rule ih)
      moreover have "?v (nw # nbrs) q ol = ?v nbrs (heap_Push q ?it) (ol(Some n \<mapsto> ?it))"
        using closed None by (simp add: nw Let_def)
      ultimately show ?thesis by simp
    next
      case (Some md)
      show ?thesis
      proof (cases "distanceFromStart md < go_add distance w")
        case True
        then have "?v (nw # nbrs) q ol = ?v nbrs q ol"
          using closed Some by (simp add: nw Let_def)
        then show ?thesis using ih [OF Cons.prems(1)] by simp
      next
        case False
        have "\<exists>q'. heap_Remove q (item_index q md) = Some q'
                \<and> search_inv g (heap_Push q' ?it) (ol(Some n \<mapsto> ?it)) cl"
          using Cons.prems(1) Some closed nn _ _
          by (rule search_inv_replace) (simp_all add: Cons.prems(2))
        then obtain q' where r: "heap_Remove q (item_index q md) = Some q'"
          and i: "search_inv g (heap_Push q' ?it) (ol(Some n \<mapsto> ?it)) cl" by blast
        from i have "\<exists>q'' ol'. ?v nbrs (heap_Push q' ?it) (ol(Some n \<mapsto> ?it)) = Inr (q'', ol')
           \<and> search_inv g q'' ol' cl" by (rule ih)
        moreover have "?v (nw # nbrs) q ol = ?v nbrs (heap_Push q' ?it) (ol(Some n \<mapsto> ?it))"
          using closed Some False r by (simp add: nw Let_def)
        ultimately show ?thesis by simp
      qed
    qed
  qed
qed

text \<open>Popping an item closes its vertex, which was not closed before.\<close>

lemma search_inv_pop:
  assumes "search_inv g q ol cl" "heap_Pop q = Some (m, q1)"
  shows "ol (item_v m) = Some m" and "cl (item_v m) = None" and "item_v m \<in> nodes g"
    and "search_inv g q1 (ol(item_v m := None)) (cl(item_v m \<mapsto> Some m))"
    and "chain_ok (cl(item_v m \<mapsto> Some m)) (item_v m)"
proof -
  from assms(1) have d: "distinct (map item_v q)"
    and q: "\<And>i. i \<in> set q \<Longrightarrow> ol (item_v i) = Some i \<and> chain_ok cl (item_prev i) \<and> item_v i \<in> nodes g"
    and o: "\<And>y i. ol y = Some i \<Longrightarrow> i \<in> set q \<and> item_v i = y"
    and c: "\<And>y e. cl y = Some e \<Longrightarrow> ol y = None \<and> y \<in> nodes g
              \<and> (\<exists>ci. e = Some ci \<and> chain_ok cl (item_prev ci))"
    unfolding search_inv_def by blast+
  let ?x = "item_v m"
  let ?cl = "cl(?x \<mapsto> Some m)"
  note p = heap_Pop_props [OF assms(2)]
  have mq: "m \<in> set q" using p(1) by blast
  have sub: "\<And>i. i \<in> set q1 \<Longrightarrow> i \<in> set q" using p(1) by blast
  from p(2) [OF d] have d1: "distinct (map item_v q1)" and nx: "?x \<notin> item_v ` set q1" by auto
  show om: "ol ?x = Some m" and xn: "?x \<in> nodes g" using q [OF mq] by auto
  show cx: "cl ?x = None"
  proof (cases "cl ?x")
    case (Some e)
    from c [OF this] om show ?thesis by simp
  qed
  have mono: "\<And>y. chain_ok cl y \<Longrightarrow> chain_ok ?cl y" by (rule chain_ok_mono [where closedList = cl and x = "item_v m", OF _ cx])
  have cm: "chain_ok ?cl (item_prev m)" using q [OF mq] mono by blast
  show "chain_ok ?cl ?x"
  proof (cases ?x)
    case None
    then show ?thesis by (simp add: chain_nil)
  next
    case (Some a)
    have "?cl (Some a) = Some (Some m)" using Some by simp
    then have "chain_ok ?cl (Some a)" using cm by (rule chain_step)
    then show ?thesis using Some by simp
  qed
  show "search_inv g q1 (ol(?x := None)) ?cl"
    unfolding search_inv_def
  proof (intro conjI ballI allI impI)
    show "distinct (map item_v q1)" by (rule d1)
  next
    fix i assume i: "i \<in> set q1"
    then have "item_v i \<noteq> ?x" using nx by (metis imageI)
    then show "(ol(?x := None)) (item_v i) = Some i" using q [OF sub [OF i]] by simp
  next
    fix i assume "i \<in> set q1"
    then show "chain_ok ?cl (item_prev i)" using q sub mono by blast
  next
    fix i assume "i \<in> set q1"
    then show "item_v i \<in> nodes g" using q sub by blast
  next
    fix y i assume "(ol(?x := None)) y = Some i"
    then have y: "y \<noteq> ?x" "ol y = Some i" by (auto split: if_splits)
    with o [of y i] have "i \<in> set q" "i \<noteq> m" by auto
    then show "i \<in> set q1" using p(1) by blast
  next
    fix y i assume "(ol(?x := None)) y = Some i"
    then show "item_v i = y" using o by (auto split: if_splits)
  next
    fix y e assume "?cl y = Some e"
    then show "(ol(?x := None)) y = None" using c by (auto split: if_splits)
  next
    fix y e assume "?cl y = Some e"
    then show "y \<in> nodes g" using c xn by (auto split: if_splits)
  next
    fix y e assume e: "?cl y = Some e"
    show "\<exists>ci. e = Some ci \<and> chain_ok ?cl (item_prev ci)"
    proof (cases "y = ?x")
      case True
      then have "e = Some m" using e by simp
      then show ?thesis using cm by blast
    next
      case False
      then have "cl y = Some e" using e by simp
      from c [OF this] mono show ?thesis by blast
    qed
  qed
qed

lemma finite_nodes: "finite (nodes g)"
  by (simp add: nodes_def live_def)

lemma neighbors_in_nodes:
  assumes "consistent g" "x \<in> nodes g"
  shows "\<forall>n \<in> fst ` set (GetOutgoing g x). Some n \<in> nodes g"
proof (cases x)
  case None
  then show ?thesis by (simp add: GetOutgoing_def)
next
  case (Some a)
  then have a: "a \<in> live g" using assms(2) by (auto simp: nodes_def)
  show ?thesis
  proof
    fix n assume "n \<in> fst ` set (GetOutgoing g x)"
    then obtain w where "map_of (outgoingEdges (store g ! a)) n = Some w"
      using Some by (auto simp: GetOutgoing_def keys_iff)
    from consistent_out [OF assms(1) a this] show "Some n \<in> nodes g"
      by (simp add: nodes_def)
  qed
qed

text \<open>The main loop returns: induction on the number of vertices that are not yet closed.\<close>

lemma search_returns:
  assumes "consistent g" "search_inv g q ol cl"
  shows "\<exists>r. search g h endKey endV q ol cl = Some (Inr r)"
  using assms(2)
proof (induction "card (nodes g - dom cl)" arbitrary: q ol cl rule: less_induct)
  case less
  show ?case
  proof (cases "q = []")
    case True
    then have "search g h endKey endV q ol cl = Some (Inr ([], False))"
      by (subst search.simps) simp
    then show ?thesis by blast
  next
    case False
    then obtain m q1 where pop: "heap_Pop q = Some (m, q1)"
      using heap_Pop_nonempty by blast
    let ?x = "item_v m"
    let ?cl = "cl(?x \<mapsto> Some m)"
    let ?ol = "ol(?x := None)"
    note p = search_inv_pop [OF less.prems pop]
    have cl1: "cl(?x \<mapsto> ol ?x) = ?cl" using p(1) by simp
    show ?thesis
    proof (cases "?x = endV")
      case True
      from build_path_returns [OF p(5), of g "[]"] obtain path where
        "build_path g ?cl ?x [] = Some (Inr path)" by blast
      then have "search g h endKey endV q ol cl = Some (Inr (path, True))"
        using False pop True cl1 by (subst search.simps) (simp add: Let_def)
      then show ?thesis by blast
    next
      case ne: False
      from visit_neighbors_inv [OF p(4,5) neighbors_in_nodes [OF assms(1) p(3)],
          of h endKey "distanceFromStart m"]
      obtain q2 ol2 where
        v: "visit_neighbors g h endKey ?x (distanceFromStart m) ?cl (GetOutgoing g ?x) q1 ?ol
              = Inr (q2, ol2)"
        and i: "search_inv g q2 ol2 ?cl" by blast
      have "nodes g - dom ?cl \<subset> nodes g - dom cl"
        using p(2,3) by auto
      moreover have "finite (nodes g - dom cl)" using finite_nodes by blast
      ultimately have "card (nodes g - dom ?cl) < card (nodes g - dom cl)"
        by (rule psubset_card_mono [rotated])
      from less.hyps [OF this i] obtain r where
        "search g h endKey endV q2 ol2 ?cl = Some (Inr r)" by blast
      then have "search g h endKey endV q ol cl = Some (Inr r)"
        using False pop ne cl1 v by (subst search.simps) (simp add: Let_def)
      then show ?thesis by blast
    qed
  qed
qed

lemma search_inv_init:
  assumes "x \<in> nodes g"
  shows "search_inv g (heap_Push [] \<lparr>item_v = x, item_prev = None, distanceFromStart = 0, priority = 0\<rparr>)
           [x \<mapsto> \<lparr>item_v = x, item_prev = None, distanceFromStart = 0, priority = 0\<rparr>] Map.empty"
  using assms by (auto simp: search_inv_def heap_Push_def chain_nil split: if_splits)

lemma get_in_nodes: "get g k \<in> nodes g"
  by (cases "get g k") (auto simp: nodes_def dest: get_Some_live)

section \<open>Results of the search\<close>

text \<open>
  C4. On the graph with vertices 1, 2, 3, 4 and edges 1\<rightarrow>2 (5), 2\<rightarrow>3 (1), 3\<rightarrow>1 (9),
  4\<rightarrow>2 (3), the search from 1 to 3 with the zero heuristic finds a path, returns its keys from
  the end to the start, 3, 2, 1, and that path has total weight 6; the search from 1 to 4
  finds nothing.
\<close>

theorem ShortestPath_worked_example:
  "ShortestPathWithHeuristic example ''1'' ''3'' (\<lambda>key endKey. 0)
     = Some (Inr ([''3'', ''2'', ''1''], True))
   \<and> path_weight example [''3'', ''2'', ''1''] = Some 6
   \<and> ShortestPathWithHeuristic example ''1'' ''4'' (\<lambda>key endKey. 0) = Some (Inr ([], False))"
proof -
  have 1: "ShortestPathWithHeuristic example ''1'' ''3'' (\<lambda>key endKey. 0)
             = Some (Inr ([''3'', ''2'', ''1''], True))"
    by (simp add: ShortestPathWithHeuristic_def example_eq get_def heap_Push_def search.simps
        heap_Pop_def build_path.simps GetOutgoing_def Let_def go_add_def)
  have 2: "path_weight example [''3'', ''2'', ''1''] = Some 6"
    by (simp add: example_eq IsConnected_def get_def)
  have 3: "ShortestPathWithHeuristic example ''1'' ''4'' (\<lambda>key endKey. 0) = Some (Inr ([], False))"
    by (simp add: ShortestPathWithHeuristic_def example_eq get_def heap_Push_def search.simps
        heap_Pop_def build_path.simps GetOutgoing_def Let_def go_add_def)
  from 1 2 3 show ?thesis by blast
qed

text \<open>
  C5 (the code departs from it). The claim: when at least one of the two keys is unknown,
  the search reports no path. With both keys unknown the start and the end pointer are both
  \<^verbatim>\<open>nil\<close>, the first popped item matches the end, and the search reports \<open>exists = true\<close>
  with an empty path: on the empty graph, and on the example graph for the keys 5 and 6.
\<close>

theorem ShortestPath_both_keys_unknown:
  "ShortestPathWithHeuristic (New :: 'v Graph) ''a'' ''b'' h = Some (Inr ([], True))
   \<and> ShortestPathWithHeuristic example ''5'' ''6'' h = Some (Inr ([], True))"
  by (simp add: ShortestPathWithHeuristic_def example_eq New_def get_def heap_Push_def search.simps
      heap_Pop_def build_path.simps Let_def)

text \<open>
  C6. On every graph, for every pair of keys and every heuristic, admissible or not, the
  search returns (and with a result, not a panic): each pass of the main loop closes a
  vertex that was not closed before, and there are only finitely many vertices.
\<close>

theorem ShortestPath_terminates:
  assumes "reachable g"
  shows "\<exists>path exists. ShortestPathWithHeuristic g startKey endKey heuristic
           = Some (Inr (path, exists))"
proof -
  have c: "consistent g" using assms by (rule reachable_consistent)
  have "\<exists>r. ShortestPathWithHeuristic g startKey endKey heuristic = Some (Inr r)"
    unfolding ShortestPathWithHeuristic_def Let_def
    by (rule search_returns [OF c search_inv_init [OF get_in_nodes]])
  then show ?thesis by auto
qed

theorem ShortestPath_terminates_witness:
  "\<exists>path exists. ShortestPathWithHeuristic example ''1'' ''3'' (\<lambda>key endKey. 1000 - int (length key))
       = Some (Inr (path, exists))"
  using ShortestPath_terminates [OF reachable_example] by blast

text \<open>
  C10. For a key \<open>k\<close> of the graph, the search from \<open>k\<close> to \<open>k\<close> returns the one-element path
  \<open>[k]\<close> and \<open>exists = true\<close>, whatever the heuristic.
\<close>

theorem ShortestPath_same_key:
  assumes "reachable g" "get g k = Some a"
  shows "ShortestPathWithHeuristic g k k h = Some (Inr ([k], True))"
proof -
  have "key (store g ! a) = k"
    using consistent_get [OF reachable_consistent [OF assms(1)] assms(2)] by simp
  then show ?thesis
    using assms(2)
    by (simp add: ShortestPathWithHeuristic_def heap_Push_def search.simps heap_Pop_def
        build_path.simps Let_def)
qed

theorem ShortestPath_same_key_witness:
  "ShortestPathWithHeuristic example ''2'' ''2'' (\<lambda>key endKey. 7) = Some (Inr ([''2''], True))"
proof -
  have "get example ''2'' = Some 1" by (simp add: example_eq get_def)
  from ShortestPath_same_key [OF reachable_example this] show ?thesis .
qed

section \<open>The search with exactly one unknown key\<close>

lemma heap_Remove_subset: "heap_Remove q i = Some q' \<Longrightarrow> set q' \<subseteq> set q"
  by (auto simp: heap_Remove_def split: if_splits dest: in_set_takeD in_set_dropD)

lemma visit_neighbors_items:
  "visit_neighbors g h endKey current distance cl nbrs q ol = Inr (q', ol') \<Longrightarrow>
     \<forall>it \<in> set q. item_v it \<noteq> None \<Longrightarrow> \<forall>it \<in> set q'. item_v it \<noteq> None"
proof (induction nbrs arbitrary: q ol)
  case Nil
  then show ?case by simp
next
  case (Cons nw nbrs)
  obtain n w where nw: "nw = (n, w)" by (cases nw)
  let ?it = "\<lparr>item_v = Some n, item_prev = current, distanceFromStart = go_add distance w,
               priority = go_add (go_add distance w) (h (key (store g ! n)) endKey)\<rparr>"
  let ?v = "visit_neighbors g h endKey current distance cl"
  have push: "\<And>q0. \<forall>it \<in> set q0. item_v it \<noteq> None \<Longrightarrow> \<forall>it \<in> set (heap_Push q0 ?it). item_v it \<noteq> None"
    by (simp add: heap_Push_def)
  show ?case
  proof (cases "cl (Some n) = None")
    case False
    then have "?v nbrs q ol = Inr (q', ol')" using Cons.prems(1) by (simp add: nw)
    then show ?thesis using Cons.prems(2) by (rule Cons.IH)
  next
    case closed: True
    show ?thesis
    proof (cases "ol (Some n)")
      case None
      then have "?v nbrs (heap_Push q ?it) (ol(Some n \<mapsto> ?it)) = Inr (q', ol')"
        using Cons.prems(1) closed by (simp add: nw Let_def)
      then show ?thesis using push [OF Cons.prems(2)] by (rule Cons.IH)
    next
      case (Some md)
      show ?thesis
      proof (cases "distanceFromStart md < go_add distance w")
        case True
        then have "?v nbrs q ol = Inr (q', ol')"
          using Cons.prems(1) closed Some by (simp add: nw Let_def)
        then show ?thesis using Cons.prems(2) by (rule Cons.IH)
      next
        case False
        then obtain q0 where r: "heap_Remove q (item_index q md) = Some q0"
          using Cons.prems(1) closed Some by (cases "heap_Remove q (item_index q md)") (simp_all add: nw Let_def)
        then have eq: "?v nbrs (heap_Push q0 ?it) (ol(Some n \<mapsto> ?it)) = Inr (q', ol')"
          using Cons.prems(1) closed Some False by (simp add: nw Let_def)
        have "\<forall>it \<in> set q0. item_v it \<noteq> None"
          using heap_Remove_subset [OF r] Cons.prems(2) by blast
        then have "\<forall>it \<in> set (heap_Push q0 ?it). item_v it \<noteq> None" by (rule push)
        with eq show ?thesis by (rule Cons.IH)
      qed
    qed
  qed
qed

lemma search_end_unknown:
  assumes "consistent g" "search_inv g q ol cl" "\<forall>it \<in> set q. item_v it \<noteq> None"
  shows "search g h endKey None q ol cl = Some (Inr ([], False))"
  using assms(2,3)
proof (induction "card (nodes g - dom cl)" arbitrary: q ol cl rule: less_induct)
  case less
  show ?case
  proof (cases "q = []")
    case True
    then show ?thesis by (subst search.simps) simp
  next
    case False
    then obtain m q1 where pop: "heap_Pop q = Some (m, q1)"
      using heap_Pop_nonempty by blast
    let ?x = "item_v m"
    let ?cl = "cl(?x \<mapsto> Some m)"
    let ?ol = "ol(?x := None)"
    note p = search_inv_pop [OF less.prems(1) pop]
    note hp = heap_Pop_props(1) [OF pop]
    have cl1: "cl(?x \<mapsto> ol ?x) = ?cl" using p(1) by simp
    have ne: "?x \<noteq> None" using less.prems(2) hp by blast
    have q1: "\<forall>it \<in> set q1. item_v it \<noteq> None" using less.prems(2) hp by blast
    from visit_neighbors_inv [OF p(4,5) neighbors_in_nodes [OF assms(1) p(3)],
        of h endKey "distanceFromStart m"]
    obtain q2 ol2 where
      v: "visit_neighbors g h endKey ?x (distanceFromStart m) ?cl (GetOutgoing g ?x) q1 ?ol
            = Inr (q2, ol2)"
      and i: "search_inv g q2 ol2 ?cl" by blast
    have q2: "\<forall>it \<in> set q2. item_v it \<noteq> None"
      using v q1 by (rule visit_neighbors_items)
    have "nodes g - dom ?cl \<subset> nodes g - dom cl"
      using p(2,3) by auto
    moreover have "finite (nodes g - dom cl)" using finite_nodes by blast
    ultimately have "card (nodes g - dom ?cl) < card (nodes g - dom cl)"
      by (rule psubset_card_mono [rotated])
    from less.hyps [OF this i q2]
    have "search g h endKey None q2 ol2 ?cl = Some (Inr ([], False))" .
    then show ?thesis using False pop ne cl1 v
      by (subst search.simps) (auto simp: Let_def)
  qed
qed

text \<open>
  With exactly one of the two keys unknown the search does report that there is no path: an
  unknown start has no outgoing edges, and an unknown end is never popped.
\<close>

theorem ShortestPath_one_key_unknown:
  assumes "reachable g"
    and "get g startKey = None \<and> get g endKey \<noteq> None
       \<or> get g startKey \<noteq> None \<and> get g endKey = None"
  shows "ShortestPathWithHeuristic g startKey endKey h = Some (Inr ([], False))"
proof -
  have cg: "consistent g" using assms(1) by (rule reachable_consistent)
  from assms(2) show ?thesis
  proof
    assume "get g startKey = None \<and> get g endKey \<noteq> None"
    then show ?thesis
      by (auto simp: ShortestPathWithHeuristic_def heap_Push_def search.simps heap_Pop_def
          GetOutgoing_def Let_def)
  next
    assume a: "get g startKey \<noteq> None \<and> get g endKey = None"
    let ?it = "\<lparr>item_v = get g startKey, item_prev = None, distanceFromStart = 0, priority = 0\<rparr>"
    have items: "\<forall>it \<in> set (heap_Push [] ?it). item_v it \<noteq> None"
      using a by (simp add: heap_Push_def)
    have "search g h endKey None (heap_Push [] ?it) [get g startKey \<mapsto> ?it] Map.empty
            = Some (Inr ([], False))"
      by (rule search_end_unknown [OF cg search_inv_init [OF get_in_nodes] items])
    then show ?thesis using a by (simp add: ShortestPathWithHeuristic_def Let_def)
  qed
qed

theorem ShortestPath_one_key_unknown_witness:
  "ShortestPathWithHeuristic example ''1'' ''9'' (\<lambda>key endKey. 0) = Some (Inr ([], False))
   \<and> ShortestPathWithHeuristic example ''9'' ''1'' (\<lambda>key endKey. 0) = Some (Inr ([], False))"
proof -
  have 1: "get example ''1'' \<noteq> None" and 9: "get example ''9'' = None"
    by (simp_all add: example_eq get_def)
  from ShortestPath_one_key_unknown [OF reachable_example, of "''1''" "''9''"]
    ShortestPath_one_key_unknown [OF reachable_example, of "''9''" "''1''"] 1 9
  show ?thesis by simp
qed

section \<open>Decoding: edges with unknown endpoints\<close>

lemma get_None_iff: "get g k = None \<longleftrightarrow> k \<notin> fst ` set (vertices g)"
  by (simp add: get_def map_of_eq_None_iff)

lemma keys_Set: "fst ` set (vertices (Set g k x)) = insert k (fst ` set (vertices g))"
proof (cases "get g k")
  case None
  then show ?thesis by (simp add: Set_new)
next
  case (Some a)
  then have "k \<in> fst ` set (vertices g)" using get_None_iff [of g k] by simp
  then show ?thesis using Some by (auto simp: Set_old)
qed

lemma keys_set_all:
  "fst ` set (vertices (set_all g vs)) = fst ` set (vertices g) \<union> fst ` set vs"
  by (induction g vs rule: set_all.induct) (auto simp: keys_Set)

lemma Connect_vertices [simp]: "vertices (snd (Connect g a b w)) = vertices g"
  by (auto simp: Connect_def Let_def split: option.splits)

lemma Connect_unknown:
  "a \<notin> fst ` set (vertices g) \<or> b \<notin> fst ` set (vertices g) \<Longrightarrow> \<not> fst (Connect g a b w)"
  by (auto simp: Connect_def get_None_iff [symmetric] split: option.splits)

lemma connect_neighbors_vertices [simp]:
  "vertices (snd (connect_neighbors g k nbrs)) = vertices g"
proof (induction nbrs arbitrary: g)
  case Nil
  show ?case by simp
next
  case (Cons cw nbrs)
  obtain c w where cw: "cw = (c, w)" by (cases cw)
  obtain ok g' where r: "Connect g k c w = (ok, g')" by (cases "Connect g k c w")
  then have v: "vertices g' = vertices g" using Connect_vertices [of g k c w] by simp
  show ?case using Cons.IH [of g'] v by (cases ok) (simp_all add: cw r)
qed

lemma connect_neighbors_fails:
  assumes "(c, w) \<in> set nbrs"
    and "k \<notin> fst ` set (vertices g) \<or> c \<notin> fst ` set (vertices g)"
  shows "\<not> fst (connect_neighbors g k nbrs)"
  using assms
proof (induction nbrs arbitrary: g)
  case Nil
  then show ?case by simp
next
  case (Cons dw nbrs)
  obtain d w' where dw: "dw = (d, w')" by (cases dw)
  obtain ok g' where r: "Connect g k d w' = (ok, g')" by (cases "Connect g k d w'")
  then have v: "vertices g' = vertices g" using Connect_vertices [of g k d w'] by simp
  show ?case
  proof (cases ok)
    case False
    then show ?thesis by (simp add: dw r)
  next
    case True
    have "(c, w) \<in> set nbrs"
    proof (rule ccontr)
      assume "(c, w) \<notin> set nbrs"
      then have "d = c" using Cons.prems(1) by (simp add: dw)
      then have "\<not> fst (Connect g k d w')" using Cons.prems(2) by (simp add: Connect_unknown)
      then show False using r True by simp
    qed
    from Cons.IH [OF this, of g'] Cons.prems(2) show ?thesis by (simp add: dw r True v)
  qed
qed

lemma connect_all_fails:
  assumes "(a, nbrs) \<in> set es" "(c, w) \<in> set nbrs"
    and "a \<notin> fst ` set (vertices g) \<or> c \<notin> fst ` set (vertices g)"
  shows "fst (connect_all g es) = Some ''invalid edge endpoints''"
  using assms
proof (induction es arbitrary: g)
  case Nil
  then show ?case by simp
next
  case (Cons kn es)
  obtain k ns where kn: "kn = (k, ns)" by (cases kn)
  obtain ok g' where r: "connect_neighbors g k ns = (ok, g')" by (cases "connect_neighbors g k ns")
  then have v: "vertices g' = vertices g" using connect_neighbors_vertices [of g k ns] by simp
  show ?case
  proof (cases ok)
    case False
    then show ?thesis by (simp add: kn r)
  next
    case True
    have "(a, nbrs) \<in> set es"
    proof (rule ccontr)
      assume "(a, nbrs) \<notin> set es"
      then have "k = a" "ns = nbrs" using Cons.prems(1) by (simp_all add: kn)
      then have "\<not> fst (connect_neighbors g k ns)"
        using connect_neighbors_fails [OF Cons.prems(2), of a g] Cons.prems(3) by simp
      then show False using r True by simp
    qed
    from Cons.IH [OF this Cons.prems(2), of g'] Cons.prems(3) show ?thesis
      by (simp add: kn r True v)
  qed
qed

text \<open>
  C9 as stated (an error whenever an edge of the decoded record has an endpoint key that is
  not among the decoded vertices) fails when the receiving graph already holds the key:
  decoding a record with no vertices and the edge a\<rightarrow>b into a graph that has the vertices
  \<open>a\<close> and \<open>b\<close> reports success, and the edge is created.
\<close>

theorem GobDecode_populated_receiver_counterexample:
  "(''a'', [(''b'', 1)]) \<in> set (Edges \<lparr>inv_gob = [], Vertices = [], Edges = [(''a'', [(''b'', 1)])]\<rparr>)
   \<and> ''a'' \<notin> fst ` set (Vertices \<lparr>inv_gob = [], Vertices = ([] :: (string \<times> nat) list),
                                   Edges = [(''a'', [(''b'', 1)])]\<rparr>)
   \<and> fst (GobDecode Inr (Set (Set New ''a'' (0::nat)) ''b'' 0)
           \<lparr>inv_gob = [], Vertices = [], Edges = [(''a'', [(''b'', 1)])]\<rparr>) = None
   \<and> IsConnected (snd (GobDecode Inr (Set (Set New ''a'' (0::nat)) ''b'' 0)
           \<lparr>inv_gob = [], Vertices = [], Edges = [(''a'', [(''b'', 1)])]\<rparr>)) ''a'' ''b'' = (True, 1)"
  by (simp add: GobDecode_def New_def Set_def Connect_def get_def IsConnected_def Let_def)

text \<open>
  C9, amended. \<^verbatim>\<open>GobDecode\<close> returns the error \<^verbatim>\<open>invalid edge endpoints\<close> whenever the decoded
  record has an edge one of whose endpoint keys is neither among the decoded vertices nor a
  vertex of the receiving graph; in particular always when the receiver is a fresh graph.
  No such edge is dropped with a report of success.
\<close>

theorem GobDecode_unknown_endpoint:
  assumes "dec b = Inr r" "(a, nbrs) \<in> set (Edges r)" "(c, w) \<in> set nbrs"
    and "a \<notin> fst ` set (Vertices r) \<union> fst ` set (vertices g)
       \<or> c \<notin> fst ` set (Vertices r) \<union> fst ` set (vertices g)"
  shows "fst (GobDecode dec g b) = Some ''invalid edge endpoints''"
proof -
  have "a \<notin> fst ` set (vertices (set_all g (Vertices r)))
      \<or> c \<notin> fst ` set (vertices (set_all g (Vertices r)))"
    using assms(4) by (auto simp: keys_set_all)
  from connect_all_fails [OF assms(2,3) this] show ?thesis
    by (simp add: GobDecode_def assms(1))
qed

theorem GobDecode_unknown_endpoint_witness:
  "fst (GobDecode Inr (New :: nat Graph)
         \<lparr>inv_gob = [], Vertices = [(''a'', 0)], Edges = [(''a'', [(''b'', 1)])]\<rparr>)
     = Some ''invalid edge endpoints''"
  using GobDecode_unknown_endpoint [of Inr
      "\<lparr>inv_gob = [], Vertices = [(''a'', 0::nat)], Edges = [(''a'', [(''b'', 1)])]\<rparr>"
      "\<lparr>inv_gob = [], Vertices = [(''a'', 0::nat)], Edges = [(''a'', [(''b'', 1)])]\<rparr>"
      "''a''" "[(''b'', 1)]" "''b''" 1 New]
  by (simp add: New_def)

section \<open>Encoding: what the record holds\<close>

lemma IsConnected_edge_of:
  assumes "consistent g"
  shows "IsConnected g a c = (case edge_of g a c of None \<Rightarrow> (False, 0) | Some w \<Rightarrow> (True, w))"
proof (cases "get g a")
  case None
  then show ?thesis by (simp add: edge_of_def IsConnected_def)
next
  case a: (Some p)
  show ?thesis
  proof (cases "get g c")
    case None
    then show ?thesis using a by (simp add: edge_of_def IsConnected_def)
  next
    case c: (Some q)
    show ?thesis
    proof (cases "a = c")
      case True
      then have "q = p" using a c by simp
      moreover have "map_of (outgoingEdges (store g ! p)) p = None"
        using consistent_out [OF assms get_Some_live [OF a], of p]
        by (cases "map_of (outgoingEdges (store g ! p)) p") auto
      ultimately show ?thesis using True a c by (simp add: edge_of_def IsConnected_def)
    next
      case False
      then show ?thesis using a c by (simp add: IsConnected_edge [OF assms a c] edge_of_def)
    qed
  qed
qed

text \<open>The two maps of the record after the loop over the registry, and the inner edge map of one vertex.\<close>

lemma add_all_Vertices:
  assumes "\<forall>(k, a) \<in> set vs. key (st ! a) = k" "distinct (map fst vs)"
  shows "map_of (Vertices (add_all st (map snd vs) gG)) k'
           = (case map_of vs k' of Some a \<Rightarrow> Some (val (st ! a)) | None \<Rightarrow> map_of (Vertices gG) k')"
  using assms
proof (induction vs arbitrary: gG)
  case Nil
  show ?case by simp
next
  case (Cons ka vs)
  obtain k a where ka: "ka = (k, a)" by (cases ka)
  from Cons.prems have key: "key (st ! a) = k" and none: "map_of vs k = None"
    and rest: "\<forall>(k, a) \<in> set vs. key (st ! a) = k" "distinct (map fst vs)"
    by (auto simp: ka map_of_eq_None_iff)
  show ?case
    using none by (simp add: ka Cons.IH [OF rest] add_def key update_conv' split: option.splits)
qed

lemma add_all_Edges:
  assumes "\<forall>(k, a) \<in> set vs. key (st ! a) = k" "distinct (map fst vs)"
  shows "map_of (Edges (add_all st (map snd vs) gG)) k'
           = (case map_of vs k' of Some a \<Rightarrow> Some (add_edges st (outgoingEdges (st ! a)) [])
              | None \<Rightarrow> map_of (Edges gG) k')"
  using assms
proof (induction vs arbitrary: gG)
  case Nil
  show ?case by simp
next
  case (Cons ka vs)
  obtain k a where ka: "ka = (k, a)" by (cases ka)
  from Cons.prems have key: "key (st ! a) = k" and none: "map_of vs k = None"
    and rest: "\<forall>(k, a) \<in> set vs. key (st ! a) = k" "distinct (map fst vs)"
    by (auto simp: ka map_of_eq_None_iff)
  show ?case
    using none by (simp add: ka Cons.IH [OF rest] add_def key update_conv' split: option.splits)
qed

lemma add_edges_lookup:
  assumes "consistent g" "distinct (map fst al)"
    and "\<forall>n \<in> fst ` set al. get g (key (store g ! n)) = Some n"
  shows "map_of (add_edges (store g) al m) c
           = (case get g c of
                Some q \<Rightarrow> (case map_of al q of Some w \<Rightarrow> Some w | None \<Rightarrow> map_of m c)
              | None \<Rightarrow> map_of m c)"
  using assms(2,3)
proof (induction al arbitrary: m)
  case Nil
  show ?case by (simp split: option.splits)
next
  case (Cons nw al)
  obtain n w where nw: "nw = (n, w)" by (cases nw)
  let ?kn = "key (store g ! n)"
  from Cons.prems have gn: "get g ?kn = Some n" and none: "map_of al n = None"
    and rest: "distinct (map fst al)" "\<forall>n \<in> fst ` set al. get g (key (store g ! n)) = Some n"
    by (auto simp: nw map_of_eq_None_iff)
  have l: "map_of (add_edges (store g) (nw # al) m) c
      = (case get g c of
           Some q \<Rightarrow> (case map_of al q of Some w' \<Rightarrow> Some w'
                      | None \<Rightarrow> map_of (AList.update ?kn w m) c)
         | None \<Rightarrow> map_of (AList.update ?kn w m) c)"
    by (simp add: nw Cons.IH [OF rest])
  show ?case
  proof (cases "get g c")
    case None
    then have "c \<noteq> ?kn" using gn by auto
    then show ?thesis unfolding l using None by (simp add: nw update_conv')
  next
    case (Some q)
    show ?thesis
    proof (cases "q = n")
      case True
      then have "c = ?kn" using consistent_inj [OF assms(1) Some] gn by simp
      then show ?thesis unfolding l using Some True none by (simp add: nw update_conv')
    next
      case False
      then have "c \<noteq> ?kn" using Some gn by auto
      then show ?thesis unfolding l using Some False
        by (simp add: nw update_conv' split: option.splits)
    qed
  qed
qed

lemma graphGob_of_Vertices:
  assumes "consistent g"
  shows "map_of (Vertices (graphGob_of g)) k = value_at g k"
proof -
  have 1: "\<forall>(k, a) \<in> set (vertices g). key (store g ! a) = k"
    using consistent_mem [OF assms] by blast
  show ?thesis
    unfolding graphGob_of_def Let_def
    by (simp add: add_all_Vertices [OF 1 consistent_distinct [OF assms]] value_at_def get_def
        split: option.splits)
qed

lemma graphGob_of_edge:
  assumes "consistent g"
  shows "gob_edge (graphGob_of g) a c = edge_of g a c"
proof -
  have 1: "\<forall>(k, a) \<in> set (vertices g). key (store g ! a) = k"
    using consistent_mem [OF assms] by blast
  have e: "map_of (Edges (graphGob_of g)) a
             = map_option (\<lambda>p. add_edges (store g) (outgoingEdges (store g ! p)) []) (get g a)"
    unfolding graphGob_of_def Let_def
    by (simp add: add_all_Edges [OF 1 consistent_distinct [OF assms]] get_def split: option.splits)
  show ?thesis
  proof (cases "get g a")
    case None
    then show ?thesis by (simp add: gob_edge_def e edge_of_def)
  next
    case (Some p)
    have pl: "p \<in> live g" using Some by (rule get_Some_live)
    have d: "distinct (map fst (outgoingEdges (store g ! p)))"
      using consistent_edges_distinct [OF assms pl] by simp
    have n: "\<forall>n \<in> fst ` set (outgoingEdges (store g ! p)). get g (key (store g ! n)) = Some n"
    proof
      fix n assume "n \<in> fst ` set (outgoingEdges (store g ! p))"
      then obtain w where "map_of (outgoingEdges (store g ! p)) n = Some w"
        by (auto simp: keys_iff)
      from consistent_out [OF assms pl this] have "n \<in> live g" by simp
      then show "get g (key (store g ! n)) = Some n" using consistent_live [OF assms] by blast
    qed
    show ?thesis
      using Some
      by (simp add: gob_edge_def e edge_of_def add_edges_lookup [OF assms d n] split: option.splits)
  qed
qed

section \<open>Decoding: what Set and Connect build\<close>

lemma get_Set:
  "get (Set g k x) k' = (if k' = k \<and> get g k = None then Some (length (store g)) else get g k')"
proof (cases "get g k")
  case None
  then have "map_of (vertices g) k = None" by (simp add: get_def)
  then show ?thesis using None
    by (auto simp: get_def Set_new [OF None] map_add_def split: option.splits)
next
  case (Some a)
  then show ?thesis by (simp add: get_def Set_old [OF Some])
qed

lemma value_at_Set:
  assumes "consistent g"
  shows "value_at (Set g k x) k' = (if k' = k then Some x else value_at g k')"
proof (cases "get g k")
  case None
  show ?thesis
  proof (cases "k' = k")
    case True
    then show ?thesis using None by (simp add: value_at_def get_Set Set_new [OF None])
  next
    case False
    show ?thesis
    proof (cases "get g k'")
      case n: None
      then show ?thesis using False by (simp add: value_at_def get_Set)
    next
      case (Some a)
      then have "a < length (store g)" using consistent_get [OF assms] by blast
      then show ?thesis using False Some
        by (simp add: value_at_def get_Set Set_new [OF None] nth_append)
    qed
  qed
next
  case (Some a)
  have lt: "a < length (store g)" using consistent_get [OF assms Some] by blast
  show ?thesis
  proof (cases "get g k'")
    case None
    then have "k' \<noteq> k" using Some by auto
    then show ?thesis using None Some by (simp add: value_at_def get_Set)
  next
    case s: (Some a')
    show ?thesis
    proof (cases "k' = k")
      case True
      then have "a' = a" using s Some by simp
      then show ?thesis using True s Some lt by (simp add: value_at_def get_Set Set_old [OF Some])
    next
      case False
      then have "a' \<noteq> a" using consistent_inj [OF assms s] Some by auto
      then show ?thesis using False s Some by (simp add: value_at_def get_Set Set_old [OF Some])
    qed
  qed
qed

lemma edge_of_Set:
  assumes "consistent g"
  shows "edge_of (Set g k x) a c = edge_of g a c"
proof (cases "get g k")
  case None
  let ?n = "length (store g)"
  have old: "\<And>k' p. get g k' = Some p \<Longrightarrow> store (Set g k x) ! p = store g ! p"
    using consistent_get [OF assms] by (simp add: Set_new [OF None] nth_append)
  have new: "outgoingEdges (store (Set g k x) ! ?n) = []"
    by (simp add: Set_new [OF None])
  have fresh: "\<And>k' p. get g k' = Some p \<Longrightarrow> map_of (outgoingEdges (store g ! p)) ?n = None"
  proof -
    fix k' p assume p: "get g k' = Some p"
    show "map_of (outgoingEdges (store g ! p)) ?n = None"
    proof (cases "map_of (outgoingEdges (store g ! p)) ?n")
      case (Some w)
      from consistent_out [OF assms get_Some_live [OF p] Some] live_lt [OF assms, of ?n]
      show ?thesis by simp
    qed simp
  qed
  show ?thesis
  proof (cases "a = k")
    case True
    then show ?thesis using None by (simp add: edge_of_def get_Set new split: option.splits)
  next
    case ak: False
    show ?thesis
    proof (cases "get g a")
      case n: None
      then show ?thesis using ak by (simp add: edge_of_def get_Set)
    next
      case (Some p)
      show ?thesis
      proof (cases "c = k")
        case True
        then show ?thesis using ak Some None fresh [OF Some]
          by (simp add: edge_of_def get_Set old [OF Some])
      next
        case False
        then show ?thesis using ak Some
          by (simp add: edge_of_def get_Set old [OF Some] split: option.splits)
      qed
    qed
  qed
next
  case (Some b)
  then show ?thesis
    by (simp add: edge_of_def get_Set Set_old [OF Some] upd_val_nth_other split: option.splits)
qed

lemma value_at_Connect: "value_at (snd (Connect g f t w)) k = value_at g k"
proof -
  consider (fail) "snd (Connect g f t w) = g"
    | (ok) p q where "f \<noteq> t" "get g f = Some p" "get g t = Some q"
    by (cases "f = t"; cases "get g f"; cases "get g t") (auto simp: Connect_def)
  then show ?thesis
  proof cases
    case fail
    then show ?thesis by simp
  next
    case (ok p q)
    show ?thesis by (simp add: value_at_def get_def Connect_ok [OF ok])
  qed
qed

lemma edge_of_Connect:
  assumes "consistent g" "f \<noteq> t" "get g f = Some p" "get g t = Some q"
  shows "edge_of (snd (Connect g f t w)) a c
           = (if a = f \<and> c = t then Some w else edge_of g a c)"
proof -
  note c = Connect_ok [OF assms(2-4)]
  have g': "\<And>k. get (snd (Connect g f t w)) k = get g k" by (simp add: get_def c)
  have lt: "p < length (store g)" using consistent_get [OF assms(1,3)] by blast
  show ?thesis
  proof (cases "get g a")
    case None
    then have "a \<noteq> f" using assms(3) by auto
    then show ?thesis using None by (simp add: edge_of_def g')
  next
    case a: (Some p')
    show ?thesis
    proof (cases "get g c")
      case None
      then have "c \<noteq> t" using assms(4) by auto
      then show ?thesis using None a by (simp add: edge_of_def g')
    next
      case c': (Some q')
      have 1: "p' = p \<longleftrightarrow> a = f"
      proof
        assume "p' = p"
        then show "a = f" using consistent_inj [OF assms(1) a, of f] assms(3) by simp
      next
        assume "a = f"
        then show "p' = p" using a assms(3) by simp
      qed
      have 2: "q' = q \<longleftrightarrow> c = t"
      proof
        assume "q' = q"
        then show "c = t" using consistent_inj [OF assms(1) c', of t] assms(4) by simp
      next
        assume "c = t"
        then show "q' = q" using c' assms(4) by simp
      qed
      show ?thesis using a c' 1 2 lt
        by (simp add: edge_of_def g' c update_conv')
    qed
  qed
qed

text \<open>\<^verbatim>\<open>GobDecode\<close>: values after the \<^verbatim>\<open>Set\<close> loop, edges after the \<^verbatim>\<open>Connect\<close> loop nest when every edge is valid.\<close>

lemma set_all_consistent: "consistent g \<Longrightarrow> consistent (set_all g vs)"
  by (induction g vs rule: set_all.induct) (simp_all add: consistent_Set)

lemma set_all_value_at:
  assumes "consistent g" "distinct (map fst vs)"
  shows "value_at (set_all g vs) k = (case map_of vs k of Some x \<Rightarrow> Some x | None \<Rightarrow> value_at g k)"
  using assms
proof (induction vs arbitrary: g)
  case Nil
  show ?case by simp
next
  case (Cons kx vs)
  obtain k' x where kx: "kx = (k', x)" by (cases kx)
  have c: "consistent (Set g k' x)" using Cons.prems(1) by (rule consistent_Set)
  have d: "distinct (map fst vs)" and n: "map_of vs k' = None"
    using Cons.prems(2) by (auto simp: kx map_of_eq_None_iff)
  show ?case
    using n by (simp add: kx Cons.IH [OF c d] value_at_Set [OF Cons.prems(1)] split: option.splits)
qed

lemma set_all_edge_of:
  assumes "consistent g"
  shows "edge_of (set_all g vs) a c = edge_of g a c"
  using assms
proof (induction vs arbitrary: g)
  case Nil
  show ?case by simp
next
  case (Cons kx vs)
  obtain k' x where kx: "kx = (k', x)" by (cases kx)
  have c: "consistent (Set g k' x)" using Cons.prems by (rule consistent_Set)
  show ?case by (simp add: kx Cons.IH [OF c] edge_of_Set [OF Cons.prems])
qed

lemma connect_neighbors_ok:
  assumes "consistent g" "distinct (map fst nbrs)"
    and "\<forall>c \<in> fst ` set nbrs. k \<noteq> c \<and> get g k \<noteq> None \<and> get g c \<noteq> None"
  shows "\<exists>g'. connect_neighbors g k nbrs = (True, g') \<and> consistent g'
          \<and> vertices g' = vertices g \<and> (\<forall>k'. value_at g' k' = value_at g k')
          \<and> (\<forall>a c. edge_of g' a c
                = (if a = k then (case map_of nbrs c of Some w \<Rightarrow> Some w | None \<Rightarrow> edge_of g a c)
                   else edge_of g a c))"
  using assms
proof (induction nbrs arbitrary: g)
  case Nil
  then show ?case by simp
next
  case (Cons cw nbrs)
  obtain c w where cw: "cw = (c, w)" by (cases cw)
  from Cons.prems(3) obtain p q where ne: "k \<noteq> c" and p: "get g k = Some p" and q: "get g c = Some q"
    by (auto simp: cw)
  let ?g = "snd (Connect g k c w)"
  have ok: "fst (Connect g k c w)" using ne p q by (rule Connect_ok(1))
  have cg: "consistent ?g" using Cons.prems(1) by (rule consistent_Connect)
  have d: "distinct (map fst nbrs)" and n: "map_of nbrs c = None"
    using Cons.prems(2) by (auto simp: cw map_of_eq_None_iff)
  have v: "\<forall>c \<in> fst ` set nbrs. k \<noteq> c \<and> get ?g k \<noteq> None \<and> get ?g c \<noteq> None"
    using Cons.prems(3) by (simp add: get_def cw)
  from Cons.IH [OF cg d v] obtain g' where
    r: "connect_neighbors ?g k nbrs = (True, g')" and c': "consistent g'"
    and vs: "vertices g' = vertices ?g" and va: "\<forall>k'. value_at g' k' = value_at ?g k'"
    and e: "\<forall>a c'. edge_of g' a c'
              = (if a = k then (case map_of nbrs c' of Some w \<Rightarrow> Some w | None \<Rightarrow> edge_of ?g a c')
                 else edge_of ?g a c')"
    by blast
  have "connect_neighbors g k (cw # nbrs) = (True, g')"
    using ok r by (cases "Connect g k c w") (simp add: cw)
  moreover have "vertices g' = vertices g" using vs by simp
  moreover have "\<forall>k'. value_at g' k' = value_at g k'" using va by (simp add: value_at_Connect)
  moreover have "\<forall>a c'. edge_of g' a c'
       = (if a = k then (case map_of (cw # nbrs) c' of Some w \<Rightarrow> Some w | None \<Rightarrow> edge_of g a c')
          else edge_of g a c')"
  proof (intro allI)
    fix a c'
    note ec = edge_of_Connect [OF Cons.prems(1) ne p q, of w a c']
    show "edge_of g' a c'
       = (if a = k then (case map_of (cw # nbrs) c' of Some w \<Rightarrow> Some w | None \<Rightarrow> edge_of g a c')
          else edge_of g a c')"
    proof (cases "a = k")
      case False
      then show ?thesis using e ec by simp
    next
      case True
      show ?thesis
      proof (cases "c' = c")
        case c: True
        then show ?thesis using True e ec n by (simp add: cw split: option.splits)
      next
        case False
        then show ?thesis using True e ec by (simp add: cw split: option.splits)
      qed
    qed
  qed
  ultimately show ?case using c' by blast
qed

lemma connect_all_ok:
  assumes "consistent g" "distinct (map fst es)"
    and "\<forall>(k, nb) \<in> set es. distinct (map fst nb)
           \<and> (\<forall>c \<in> fst ` set nb. k \<noteq> c \<and> get g k \<noteq> None \<and> get g c \<noteq> None)"
  shows "\<exists>g'. connect_all g es = (None, g') \<and> consistent g'
          \<and> vertices g' = vertices g \<and> (\<forall>k'. value_at g' k' = value_at g k')
          \<and> (\<forall>a c. edge_of g' a c
                = (case map_of es a of
                     Some nb \<Rightarrow> (case map_of nb c of Some w \<Rightarrow> Some w | None \<Rightarrow> edge_of g a c)
                   | None \<Rightarrow> edge_of g a c))"
  using assms
proof (induction es arbitrary: g)
  case Nil
  then show ?case by simp
next
  case (Cons kn es)
  obtain k nb where kn: "kn = (k, nb)" by (cases kn)
  from Cons.prems(3) have dn: "distinct (map fst nb)"
    and vn: "\<forall>c \<in> fst ` set nb. k \<noteq> c \<and> get g k \<noteq> None \<and> get g c \<noteq> None"
    by (auto simp: kn)
  from connect_neighbors_ok [OF Cons.prems(1) dn vn] obtain g1 where
    r1: "connect_neighbors g k nb = (True, g1)" and c1: "consistent g1"
    and v1: "vertices g1 = vertices g" and va1: "\<forall>k'. value_at g1 k' = value_at g k'"
    and e1: "\<forall>a c. edge_of g1 a c
               = (if a = k then (case map_of nb c of Some w \<Rightarrow> Some w | None \<Rightarrow> edge_of g a c)
                  else edge_of g a c)"
    by blast
  have d: "distinct (map fst es)" and n: "map_of es k = None"
    using Cons.prems(2) by (auto simp: kn map_of_eq_None_iff)
  have v: "\<forall>(k, nb) \<in> set es. distinct (map fst nb)
             \<and> (\<forall>c \<in> fst ` set nb. k \<noteq> c \<and> get g1 k \<noteq> None \<and> get g1 c \<noteq> None)"
    using Cons.prems(3) by (simp add: get_def v1 kn)
  from Cons.IH [OF c1 d v] obtain g' where
    r: "connect_all g1 es = (None, g')" and c': "consistent g'"
    and vs: "vertices g' = vertices g1" and va: "\<forall>k'. value_at g' k' = value_at g1 k'"
    and e: "\<forall>a c. edge_of g' a c
              = (case map_of es a of
                   Some nb \<Rightarrow> (case map_of nb c of Some w \<Rightarrow> Some w | None \<Rightarrow> edge_of g1 a c)
                 | None \<Rightarrow> edge_of g1 a c)"
    by blast
  have "connect_all g (kn # es) = (None, g')" by (simp add: kn r1 r)
  moreover have "vertices g' = vertices g" using vs v1 by simp
  moreover have "\<forall>k'. value_at g' k' = value_at g k'" using va va1 by simp
  moreover have "\<forall>a c. edge_of g' a c
       = (case map_of (kn # es) a of
            Some nb \<Rightarrow> (case map_of nb c of Some w \<Rightarrow> Some w | None \<Rightarrow> edge_of g a c)
          | None \<Rightarrow> edge_of g a c)"
  proof (intro allI)
    fix a c
    show "edge_of g' a c
       = (case map_of (kn # es) a of
            Some nb \<Rightarrow> (case map_of nb c of Some w \<Rightarrow> Some w | None \<Rightarrow> edge_of g a c)
          | None \<Rightarrow> edge_of g a c)"
    proof (cases "a = k")
      case True
      then show ?thesis using e e1 n by (simp add: kn split: option.splits)
    next
      case False
      then show ?thesis using e e1 by (simp add: kn split: option.splits)
    qed
  qed
  ultimately show ?case using c' by blast
qed

lemma Len_card: "consistent g \<Longrightarrow> Len g = card (fst ` set (vertices g))"
  using distinct_card [of "map fst (vertices g)"] by (simp add: Len_def consistent_distinct)

lemma dom_value_at: "dom (value_at g) = fst ` set (vertices g)"
proof -
  have "dom (value_at g) = dom (map_of (vertices g))"
    by (auto simp: value_at_def get_def dom_def)
  then show ?thesis by (simp add: dom_map_of_conv_image_fst)
qed

section \<open>The round trip\<close>

lemma value_at_New: "value_at New k = None"
  by (simp add: value_at_def get_def New_def)

lemma edge_of_New: "edge_of New a c = None"
  by (simp add: edge_of_def get_def New_def)

lemma value_at_get: "value_at g k = None \<longleftrightarrow> get g k = None"
  by (simp add: value_at_def)

text \<open>
  C8. Round trip: a graph built by the public operations is encoded with \<^verbatim>\<open>GobEncode\<close> and
  the bytes are decoded with \<^verbatim>\<open>GobDecode\<close> into a fresh graph. The codec is correct: whatever
  record the encoder turns into bytes without an error, the decoder turns those bytes back
  into a record with the same key/value pairs and the same edges. Then decoding succeeds,
  and the new graph has the same number of vertices, the same value under every key and the
  same weight on every directed edge.
\<close>

theorem gob_round_trip:
  assumes "reachable g"
    and "\<forall>r b. enc r = (b, None) \<longrightarrow> (\<exists>r'. dec b = Inr r' \<and> same_gob r r')"
    and "GobEncode enc g = (b, None)"
  shows "\<exists>g'. GobDecode dec New b = (None, g') \<and> Len g' = Len g
           \<and> (\<forall>k. value_at g' k = value_at g k)
           \<and> (\<forall>a c. IsConnected g' a c = IsConnected g a c)"
proof -
  have cg: "consistent g" using assms(1) by (rule reachable_consistent)
  have "enc (graphGob_of g) = (b, None)" using assms(3) by (simp add: GobEncode_def)
  with assms(2) obtain r' where dec: "dec b = Inr r'" and same: "same_gob (graphGob_of g) r'"
    by blast
  from same have V: "\<And>k. map_of (Vertices r') k = value_at g k"
    and E: "\<And>a c. gob_edge r' a c = edge_of g a c"
    and dv: "distinct (map fst (Vertices r'))" and de: "distinct (map fst (Edges r'))"
    and dn: "\<And>k nb. (k, nb) \<in> set (Edges r') \<Longrightarrow> distinct (map fst nb)"
    unfolding same_gob_def
    by (auto simp: graphGob_of_Vertices [OF cg, symmetric] graphGob_of_edge [OF cg, symmetric])
  let ?g1 = "set_all New (Vertices r')"
  have c1: "consistent ?g1" using consistent_New by (rule set_all_consistent)
  have v1: "\<And>k. value_at ?g1 k = value_at g k"
    by (simp add: set_all_value_at [OF consistent_New dv] value_at_New V [symmetric]
        split: option.splits)
  have e1: "\<And>a c. edge_of ?g1 a c = None"
    by (simp add: set_all_edge_of [OF consistent_New] edge_of_New)
  have valid: "\<forall>(k, nb) \<in> set (Edges r'). distinct (map fst nb)
      \<and> (\<forall>c \<in> fst ` set nb. k \<noteq> c \<and> get ?g1 k \<noteq> None \<and> get ?g1 c \<noteq> None)"
  proof (intro ballI, clarify, intro conjI ballI)
    fix k nb assume m: "(k, nb) \<in> set (Edges r')"
    show "distinct (map fst nb)" using m by (rule dn)
    fix c assume "c \<in> fst ` set nb"
    then obtain w where w: "map_of nb c = Some w" by (auto simp: keys_iff)
    have "map_of (Edges r') k = Some nb" using de m by (rule map_of_is_SomeI)
    then have "edge_of g k c = Some w" using w E [of k c] by (simp add: gob_edge_def)
    then obtain p q where p: "get g k = Some p" and q: "get g c = Some q"
      and o: "map_of (outgoingEdges (store g ! p)) q = Some w"
      by (auto simp: edge_of_def split: option.splits)
    from consistent_out [OF cg get_Some_live [OF p] o] have "q \<noteq> p" by simp
    then show "k \<noteq> c" using p q by auto
    have "value_at ?g1 k \<noteq> None" using p by (simp add: v1 value_at_get)
    then show "get ?g1 k \<noteq> None" by (simp add: value_at_get)
    have "value_at ?g1 c \<noteq> None" using q by (simp add: v1 value_at_get)
    then show "get ?g1 c \<noteq> None" by (simp add: value_at_get)
  qed
  from connect_all_ok [OF c1 de valid] obtain g' where
    r: "connect_all ?g1 (Edges r') = (None, g')" and c': "consistent g'"
    and va: "\<And>k. value_at g' k = value_at ?g1 k"
    and e: "\<And>a c. edge_of g' a c
              = (case map_of (Edges r') a of
                   Some nb \<Rightarrow> (case map_of nb c of Some w \<Rightarrow> Some w | None \<Rightarrow> edge_of ?g1 a c)
                 | None \<Rightarrow> edge_of ?g1 a c)"
    by blast
  have 1: "GobDecode dec New b = (None, g')" by (simp add: GobDecode_def dec r)
  have 3: "\<And>k. value_at g' k = value_at g k" by (simp add: va v1)
  then have "value_at g' = value_at g" by blast
  then have "fst ` set (vertices g') = fst ` set (vertices g)"
    using dom_value_at [of g'] dom_value_at [of g] by simp
  then have 2: "Len g' = Len g" by (simp add: Len_card c' cg)
  have "\<And>a c. edge_of g' a c = edge_of g a c"
    by (simp add: e e1 E [symmetric] gob_edge_def split: option.splits)
  then have 4: "\<And>a c. IsConnected g' a c = IsConnected g a c"
    by (simp add: IsConnected_edge_of c' cg)
  from 1 2 3 4 show ?thesis by blast
qed

theorem gob_round_trip_witness:
  "\<exists>g'. GobDecode Inr New
          (fst (GobEncode (\<lambda>r. (r, if distinct (map fst (Vertices r)) \<and> distinct (map fst (Edges r))
                                      \<and> (\<forall>nb \<in> snd ` set (Edges r). distinct (map fst nb))
                                   then None else Some ''duplicate key'')) example))
        = (None, g')
     \<and> Len g' = Len example
     \<and> (\<forall>k. value_at g' k = value_at example k)
     \<and> (\<forall>a c. IsConnected g' a c = IsConnected example a c)"
proof -
  let ?enc = "\<lambda>r :: (int + string) graphGob.
     (r, if distinct (map fst (Vertices r)) \<and> distinct (map fst (Edges r))
            \<and> (\<forall>nb \<in> snd ` set (Edges r). distinct (map fst nb))
         then None else Some ''duplicate key'')"
  have r: "graphGob_of example
      = \<lparr>inv_gob = [(0, ''1''), (1, ''2''), (2, ''3''), (3, ''4'')],
          Vertices = [(''1'', Inl 123), (''2'', Inl 678), (''3'', Inr ''abc''), (''4'', Inr ''xyz'')],
          Edges = [(''1'', [(''2'', 5)]), (''2'', [(''3'', 1)]), (''3'', [(''1'', 9)]),
                   (''4'', [(''2'', 3)])]\<rparr>"
    by (simp add: graphGob_of_def example_eq add_def)
  have e: "GobEncode ?enc example = (graphGob_of example, None)"
    unfolding GobEncode_def r by simp
  have c: "\<forall>r b. ?enc r = (b, None) \<longrightarrow> (\<exists>r'. Inr b = Inr r' \<and> same_gob r r')"
    by (auto simp: same_gob_def split: if_splits)
  have fe: "fst (GobEncode ?enc example) = graphGob_of example" by (simp only: e fst_conv)
  from gob_round_trip [where enc = ?enc and dec = Inr, OF reachable_example c e]
  show ?thesis unfolding fe .
qed

end
